theory Spec2Isabelle
  imports Complex_Main "HOL-Library.Multiset"
begin

section \<open>The speed comparison harness (speed-comparison.js)\<close>

text \<open>
  The harness races one payload over three transports (QUIC, HTTP, WebSocket), collects one
  triple of elapsed times per client instance and prints descriptive statistics for each
  transport. Source names are kept; the leading underscore of the private helpers is
  dropped (\<open>_calculateMean\<close> is \<open>calculateMean\<close>), and \<open>_sort\<close> is \<open>sort_nums\<close>.

  Numbers. A duration is \<open>_getTime() - start\<close>, a difference of two
  \<open>(new Date()).valueOf()\<close> readings, hence an integer-valued double: the arrays of
  durations are lists of \<open>int\<close>, each element standing for the double of that value. What
  the statistics compute from them is a \<open>number\<close>: every \<open>+\<close>, \<open>-\<close>, \<open>/\<close>, \<open>Math.pow\<close> and
  \<open>Math.sqrt\<close> is rounded to the nearest double, ties to even, with overflow to an infinity.
  \<open>undefined\<close> (an index out of range) is \<open>None\<close> of an option type.
\<close>

subsection \<open>Errors\<close>

datatype error = TypeError
  \<comment> \<open>\<open>reduce\<close> of an empty array with no initial value\<close>

subsection \<open>Numbers: IEEE 754 binary64, round to nearest, ties to even\<close>

text \<open>
  A number is a finite double, given by its real value, one of the two infinities, or
  \<open>NaN\<close>. The sign of zero is not kept: \<open>+0\<close> and \<open>-0\<close> are both \<open>Finite 0\<close>.
\<close>

datatype number = Finite real | PInf | NInf | NaN

text \<open>
  \<open>expo x\<close> is the exponent of the binade of \<open>x\<close>, found by searching upwards from the
  smallest normal exponent \<open>-1022\<close> (where the subnormals live too) to \<open>1024\<close> (beyond the
  largest double). The doubles of that binade are the multiples of \<open>2 powi (expo x - 52)\<close>.
\<close>

fun find_expo :: "nat \<Rightarrow> int \<Rightarrow> real \<Rightarrow> int" where
  "find_expo 0 e a = e"
| "find_expo (Suc k) e a = (if 2 powi (e + 1) \<le> a then find_expo k (e + 1) a else e)"

definition expo :: "real \<Rightarrow> int" where
  "expo x = find_expo 2046 (- 1022) \<bar>x\<bar>"

definition roundTiesToEven :: "real \<Rightarrow> int" where
  "roundTiesToEven q =
     (let f = \<lfloor>q\<rfloor>; r = q - of_int f
      in if r < 1 / 2 then f else if 1 / 2 < r then f + 1 else if even f then f else f + 1)"

definition round_real :: "real \<Rightarrow> real" where
  "round_real x = (let u = 2 powi (expo x - 52) in of_int (roundTiesToEven (x / u)) * u)"

definition fl :: "real \<Rightarrow> number" where
  \<comment> \<open>the double nearest to the exact result \<open>x\<close> of an operation\<close>
  "fl x = (let y = round_real x
           in if 2 powi 1024 \<le> \<bar>y\<bar> then (if 0 < y then PInf else NInf) else Finite y)"

definition num_of_int :: "int \<Rightarrow> number" where
  \<comment> \<open>the double an element of a duration array stands for\<close>
  "num_of_int x = Finite (of_int x)"

fun num_add :: "number \<Rightarrow> number \<Rightarrow> number" where
  "num_add NaN b = NaN"
| "num_add a NaN = NaN"
| "num_add PInf NInf = NaN"
| "num_add NInf PInf = NaN"
| "num_add PInf b = PInf"
| "num_add a PInf = PInf"
| "num_add NInf b = NInf"
| "num_add a NInf = NInf"
| "num_add (Finite x) (Finite y) = fl (x + y)"

fun num_sub :: "number \<Rightarrow> number \<Rightarrow> number" where
  "num_sub NaN b = NaN"
| "num_sub a NaN = NaN"
| "num_sub PInf PInf = NaN"
| "num_sub NInf NInf = NaN"
| "num_sub PInf b = PInf"
| "num_sub NInf b = NInf"
| "num_sub a PInf = NInf"
| "num_sub a NInf = PInf"
| "num_sub (Finite x) (Finite y) = fl (x - y)"

fun num_div_length :: "number \<Rightarrow> nat \<Rightarrow> number" where
  \<comment> \<open>\<open>v / nums.length\<close>: the divisor is the length of an array, \<open>+0\<close> when it is empty\<close>
  "num_div_length NaN n = NaN"
| "num_div_length PInf n = PInf"
| "num_div_length NInf n = NInf"
| "num_div_length (Finite x) n =
     (if n = 0 then (if x = 0 then NaN else if 0 < x then PInf else NInf)
      else fl (x / real n))"

text \<open>
  \<open>Math.pow(v, 2)\<close> and \<open>Math.sqrt(v)\<close>. ECMAScript leaves their precision to the
  implementation; they are taken as the engines compute them, correctly rounded (the
  product \<open>v * v\<close> and the IEEE square root).
\<close>

fun Math_pow2 :: "number \<Rightarrow> number" where
  "Math_pow2 NaN = NaN"
| "Math_pow2 PInf = PInf"
| "Math_pow2 NInf = PInf"
| "Math_pow2 (Finite x) = fl (x * x)"

fun Math_sqrt :: "number \<Rightarrow> number" where
  "Math_sqrt NaN = NaN"
| "Math_sqrt PInf = PInf"
| "Math_sqrt NInf = NaN"
| "Math_sqrt (Finite x) = (if x < 0 then NaN else fl (sqrt x))"

subsection \<open>The built-in sort and the comparator of \<open>_sort\<close>\<close>

text \<open>
  \<open>Array.prototype.sort(comparefn)\<close> is a built-in of the language. ECMAScript defines its
  result for a consistent comparator: the elements in an order where \<open>comparefn\<close> never
  puts a later one strictly before an earlier one, elements that compare equal keeping their
  relative order (the sort is stable), and a comparator result of \<open>undefined\<close> read as
  \<open>+0\<close>. The stable insertion sort below computes that result.
\<close>

definition SortCompare :: "('a \<Rightarrow> 'a \<Rightarrow> int option) \<Rightarrow> 'a \<Rightarrow> 'a \<Rightarrow> int" where
  "SortCompare comparefn x y = (case comparefn x y of None \<Rightarrow> 0 | Some v \<Rightarrow> v)"

fun sort_insert :: "('a \<Rightarrow> 'a \<Rightarrow> int option) \<Rightarrow> 'a \<Rightarrow> 'a list \<Rightarrow> 'a list" where
  "sort_insert comparefn x [] = [x]"
| "sort_insert comparefn x (y # ys) =
     (if SortCompare comparefn x y \<le> 0 then x # y # ys
      else y # sort_insert comparefn x ys)"

fun Array_sort :: "('a \<Rightarrow> 'a \<Rightarrow> int option) \<Rightarrow> 'a list \<Rightarrow> 'a list" where
  "Array_sort comparefn [] = []"
| "Array_sort comparefn (x # xs) = sort_insert comparefn x (Array_sort comparefn xs)"

text \<open>
  The comparator passed by \<open>_sort\<close>. Its last \<open>else if\<close> has no \<open>else\<close>: where none of the
  three tests holds the arrow function returns \<open>undefined\<close> (\<open>None\<close>).
\<close>

definition sort_comparefn :: "int \<Rightarrow> int \<Rightarrow> int option" where
  "sort_comparefn a b =
     (if a < b then Some (- 1)
      else if a > b then Some 1
      else if a = b then Some 0
      else None)"

subsection \<open>Arrays in the store\<close>

text \<open>
  \<open>sort\<close> works in place, so the arrays of numbers live in a store: an array reference is an
  index into the list of allocated arrays. \<open>Array_map_alloc\<close> is the allocation done by
  \<open>timings.map(...)\<close>, which returns a fresh array.
\<close>

type_synonym addr = nat
type_synonym heap = "int list list"

definition Array_map_alloc :: "int list \<Rightarrow> heap \<Rightarrow> addr \<times> heap" where
  "Array_map_alloc xs h = (length h, h @ [xs])"

definition sort_nums :: "addr \<Rightarrow> heap \<Rightarrow> addr \<times> heap" where
  \<comment> \<open>\<open>return nums.sort(...)\<close>: the receiver is sorted in place and returned. A reference
      always points into the store; the guard only makes the function total.\<close>
  "sort_nums nums h =
     (if nums < length h then (nums, h[nums := Array_sort sort_comparefn (h ! nums)])
      else (nums, h))"

subsection \<open>The statistics\<close>

definition calculateMean :: "int list \<Rightarrow> error + number" where
  \<comment> \<open>\<open>nums.reduce((sum, num) => sum + num)\<close> starts from the first element and throws a
      TypeError on an empty array.\<close>
  "calculateMean nums =
     (case nums of
        [] \<Rightarrow> Inl TypeError
      | x # xs \<Rightarrow>
          (let sum = foldl (\<lambda>sum num. num_add sum (num_of_int num)) (num_of_int x) xs
           in Inr (num_div_length sum (length nums))))"

definition calculateMedian :: "int list \<Rightarrow> int option" where
  \<comment> \<open>\<open>None\<close> is \<open>undefined\<close>\<close>
  "calculateMedian nums =
     (let idx = length nums div 2
      in if idx < length nums then Some (nums ! idx) else None)"

definition calculateHigh :: "int list \<Rightarrow> int option" where
  \<comment> \<open>\<open>nums[nums.length - 1]\<close>; index \<open>-1\<close> of an empty array is \<open>undefined\<close> (\<open>None\<close>)\<close>
  "calculateHigh nums =
     (if nums = [] then None else Some (nums ! (length nums - 1)))"

definition calculateLow :: "int list \<Rightarrow> int option" where
  \<comment> \<open>\<open>None\<close> is \<open>undefined\<close>\<close>
  "calculateLow nums = (case nums of [] \<Rightarrow> None | x # _ \<Rightarrow> Some x)"

definition calculateVariance :: "number \<Rightarrow> int list \<Rightarrow> number" where
  \<comment> \<open>on an empty array the result is \<open>0 / 0\<close>, which is \<open>NaN\<close>\<close>
  "calculateVariance mean nums =
     (let variance = foldl (\<lambda>variance num.
                              num_add (Math_pow2 (num_sub (num_of_int num) mean)) variance)
                       (Finite 0) nums
      in num_div_length variance (length nums))"

definition calculateStdDev :: "int list \<Rightarrow> error + number" where
  "calculateStdDev nums =
     (case calculateMean nums of
        Inl e \<Rightarrow> Inl e
      | Inr mean \<Rightarrow> Inr (Math_sqrt (calculateVariance mean nums)))"

definition getHighFive :: "int list \<Rightarrow> int list" where
  \<comment> \<open>\<open>nums.slice(-5)\<close>: from \<open>max (length - 5) 0\<close> to the end\<close>
  "getHighFive nums = drop (length nums - 5) nums"

definition getLowFive :: "int list \<Rightarrow> int list" where
  "getLowFive nums = take 5 nums"

subsection \<open>The report\<close>

text \<open>
  \<open>ret\<close>, the object that \<open>_formatTimings\<close> prints. The three \<open>...Responses\<close> fields are
  \<open>JSON.stringify\<close> of the sorted arrays; the record keeps the array contents that are
  serialised, not the text.
\<close>

record report =
  quicResponses :: "int list"
  httpResponses :: "int list"
  wsResponses :: "int list"
  quicMean :: number
  httpMean :: number
  wsMean :: number
  quicMedian :: "int option"
  httpMedian :: "int option"
  wsMedian :: "int option"
  quicHigh :: "int option"
  httpHigh :: "int option"
  wsHigh :: "int option"
  quicLow :: "int option"
  httpLow :: "int option"
  wsLow :: "int option"
  quicStdDev :: number
  httpStdDev :: number
  wsStdDev :: number
  quicHighFive :: "int list"
  httpHighFive :: "int list"
  wsHighFive :: "int list"
  quicLowFive :: "int list"
  httpLowFive :: "int list"
  wsLowFive :: "int list"

definition deref :: "heap \<Rightarrow> addr \<Rightarrow> int list" where
  \<comment> \<open>reading the array behind a reference; references always point into the store, the
      guard only makes the function total\<close>
  "deref h a = (if a < length h then h ! a else [])"

text \<open>
  A timing triple is the three-element array that the inner \<open>Promise.all\<close> of
  \<open>runAsClient\<close> resolves with: \<open>timingPair[0]\<close>, \<open>[1]\<close>, \<open>[2]\<close> are the components of a
  triple. \<open>_formatTimings\<close> returns nothing; the model returns what it prints and the
  store it leaves, or the exception it throws. Local variables that share a name with a
  field of \<open>ret\<close> carry a prime.
\<close>

type_synonym timing = "int \<times> int \<times> int"

definition formatTimings :: "timing list \<Rightarrow> heap \<Rightarrow> error + (report \<times> heap)" where
  "formatTimings timings h0 =
     (let (quicResponses', h1) = Array_map_alloc (map (\<lambda>timingPair. fst timingPair) timings) h0;
          (httpResponses', h2) = Array_map_alloc (map (\<lambda>timingPair. fst (snd timingPair)) timings) h1;
          (wsResponses', h3) = Array_map_alloc (map (\<lambda>timingPair. snd (snd timingPair)) timings) h2;
          (sortedQuicResponses, h4) = sort_nums quicResponses' h3;
          (sortedHttpResponses, h5) = sort_nums httpResponses' h4;
          (sortedWSResponses, h6) = sort_nums wsResponses' h5
      in
      case calculateMean (deref h6 sortedQuicResponses) of Inl e \<Rightarrow> Inl e | Inr quicMean' \<Rightarrow>
      (case calculateMean (deref h6 sortedHttpResponses) of Inl e \<Rightarrow> Inl e | Inr httpMean' \<Rightarrow>
      (case calculateMean (deref h6 sortedWSResponses) of Inl e \<Rightarrow> Inl e | Inr wsMean' \<Rightarrow>
      (case calculateStdDev (deref h6 sortedQuicResponses) of Inl e \<Rightarrow> Inl e | Inr quicStdDev' \<Rightarrow>
      (case calculateStdDev (deref h6 sortedHttpResponses) of Inl e \<Rightarrow> Inl e | Inr httpStdDev' \<Rightarrow>
      (case calculateStdDev (deref h6 sortedWSResponses) of Inl e \<Rightarrow> Inl e | Inr wsStdDev' \<Rightarrow>
      Inr (\<lparr> quicResponses = deref h6 sortedQuicResponses,
             httpResponses = deref h6 sortedHttpResponses,
             wsResponses = deref h6 sortedWSResponses,
             quicMean = quicMean',
             httpMean = httpMean',
             wsMean = wsMean',
             quicMedian = calculateMedian (deref h6 sortedQuicResponses),
             httpMedian = calculateMedian (deref h6 sortedHttpResponses),
             wsMedian = calculateMedian (deref h6 sortedWSResponses),
             quicHigh = calculateHigh (deref h6 sortedQuicResponses),
             httpHigh = calculateHigh (deref h6 sortedHttpResponses),
             wsHigh = calculateHigh (deref h6 sortedWSResponses),
             quicLow = calculateLow (deref h6 sortedQuicResponses),
             httpLow = calculateLow (deref h6 sortedHttpResponses),
             wsLow = calculateLow (deref h6 sortedWSResponses),
             quicStdDev = quicStdDev',
             httpStdDev = httpStdDev',
             wsStdDev = wsStdDev',
             quicHighFive = getHighFive (deref h6 sortedQuicResponses),
             httpHighFive = getHighFive (deref h6 sortedHttpResponses),
             wsHighFive = getHighFive (deref h6 sortedWSResponses),
             quicLowFive = getLowFive (deref h6 sortedQuicResponses),
             httpLowFive = getLowFive (deref h6 sortedHttpResponses),
             wsLowFive = getLowFive (deref h6 sortedWSResponses) \<rparr>, h6)))))))"

subsection \<open>Promises\<close>

text \<open>
  A promise settles once: \<open>resolve\<close> and \<open>reject\<close> act on a pending promise only.
\<close>

datatype 'a promise = Pending | Fulfilled 'a | Rejected string

definition resolve :: "'a \<Rightarrow> 'a promise \<Rightarrow> 'a promise" where
  "resolve v p = (case p of Pending \<Rightarrow> Fulfilled v | _ \<Rightarrow> p)"

definition reject :: "string \<Rightarrow> 'a promise \<Rightarrow> 'a promise" where
  "reject reason p = (case p of Pending \<Rightarrow> Rejected reason | _ \<Rightarrow> p)"

text \<open>
  \<open>Promise.all\<close>, on the states its inputs end in: rejected as soon as one input is
  rejected, fulfilled with the values in the order of the inputs once all are fulfilled,
  pending otherwise. With several rejected inputs the language reports the reason of the one
  that settled first; the model reports the first in the order of the array.
\<close>

fun Promise_all :: "'a promise list \<Rightarrow> 'a list promise" where
  "Promise_all [] = Fulfilled []"
| "Promise_all (p # ps) =
     (case p of
        Rejected reason \<Rightarrow> Rejected reason
      | Pending \<Rightarrow> (case Promise_all ps of Rejected reason \<Rightarrow> Rejected reason | _ \<Rightarrow> Pending)
      | Fulfilled v \<Rightarrow>
          (case Promise_all ps of
             Fulfilled vs \<Rightarrow> Fulfilled (v # vs)
           | Rejected reason \<Rightarrow> Rejected reason
           | Pending \<Rightarrow> Pending))"

definition Promise_all3 :: "int promise \<Rightarrow> int promise \<Rightarrow> int promise \<Rightarrow> timing promise" where
  \<comment> \<open>\<open>Promise.all([quicPromise, httpPromise, wsPromise])\<close>, its three-element result as a
      triple\<close>
  "Promise_all3 quicPromise httpPromise wsPromise =
     (case Promise_all [quicPromise, httpPromise, wsPromise] of
        Fulfilled vs \<Rightarrow> Fulfilled (vs ! 0, vs ! 1, vs ! 2)
      | Rejected reason \<Rightarrow> Rejected reason
      | Pending \<Rightarrow> Pending)"

subsection \<open>The outside world and the effects of the harness\<close>

text \<open>
  What the harness cannot decide is a parameter of the model:
  \<^item> \<open>readFileSync k\<close>: the content of the payload file at the read that follows \<open>k\<close>
    earlier reads;
  \<^item> \<open>getTime_start t port\<close>: the clock reading taken as \<open>start\<close> when the operation of
    transport \<open>t\<close> on \<open>port\<close> is dispatched;
  \<^item> \<open>delivery t port data\<close>: the reply that transport \<open>t\<close> hands to the data callback of
    the operation that sent \<open>data\<close> to \<open>port\<close>, with the clock reading of \<open>_getTime()\<close> in
    that callback; \<open>None\<close> when the callback never runs.
  \<open>data\<close> is what was handed to the transport. Each operation gets at most one reply. The
  callback of \<open>request\<close> after a transport error (where \<open>resp\<close> is \<open>undefined\<close>) is not
  modelled.
\<close>

datatype transport = QUIC | HTTP | WS

record world =
  readFileSync :: "nat \<Rightarrow> string"
  getTime_start :: "transport \<Rightarrow> int \<Rightarrow> int"
  delivery :: "transport \<Rightarrow> int \<Rightarrow> string \<Rightarrow> (string \<times> int) option"

text \<open>
  \<open>WsOnOpen es\<close> is the registration \<open>ws.on('open', handler)\<close> of a handler that performs
  the effects \<open>es\<close> when the socket opens.
\<close>

datatype effect =
    ReadFile string
  | QuicSend int string
  | HttpPost int string
  | WsOpen int
  | WsOnOpen "effect list"
  | WsSend string
  | WsClose
  | Sleep nat
  | QuicListen int
  | HttpListen int
  | WsListen int
  | ConsoleLog report

text \<open>
  The state threaded through the synchronous code: how many times the payload file has
  been read, the effects in program order, and the store of number arrays.
\<close>

record state =
  reads :: nat
  effects :: "effect list"
  store :: heap

definition emit :: "effect list \<Rightarrow> state \<Rightarrow> state" where
  "emit es s = s\<lparr>effects := effects s @ es\<rparr>"

subsection \<open>The data callbacks of \<open>runAsClient\<close>\<close>

text \<open>
  Each callback takes the payload and the \<open>start\<close> of its closure, the reply, the clock
  reading \<open>now\<close> of its \<open>_getTime()\<close> call and the promise it settles; it returns the promise
  and the effects it performs. \<open>reject\<close> does not leave the callback: \<open>resolve\<close> is called
  after it in every case.
\<close>

definition quic_onData :: "string \<Rightarrow> int \<Rightarrow> string \<Rightarrow> int \<Rightarrow> int promise \<Rightarrow> int promise \<times> effect list" where
  "quic_onData data start resp now p =
     (let p1 = (if resp \<noteq> data then reject ''QUIC received wrong response'' p else p)
      in (resolve (now - start) p1, []))"

definition http_callback :: "string \<Rightarrow> int \<Rightarrow> string \<Rightarrow> int \<Rightarrow> int promise \<Rightarrow> int promise \<times> effect list" where
  "http_callback data start resp now p =
     (let p1 = (if resp \<noteq> data then reject ''HTTP received wrong response'' p else p)
      in (resolve (now - start) p1, []))"

definition ws_onOpen :: "string \<Rightarrow> effect list" where
  "ws_onOpen data = [WsSend data]"

definition ws_onMessage :: "string \<Rightarrow> int \<Rightarrow> string \<Rightarrow> int \<Rightarrow> int promise \<Rightarrow> int promise \<times> effect list" where
  "ws_onMessage data start message now p =
     (let p1 = (if message \<noteq> data then reject ''WS received wrong response'' p else p)
      in (resolve (now - start) p1, [WsClose]))"

subsection \<open>\<open>runAsClient\<close>, \<open>runAsServer\<close> and \<open>main\<close>\<close>

definition settle ::
  "(string \<Rightarrow> int \<Rightarrow> string \<Rightarrow> int \<Rightarrow> int promise \<Rightarrow> int promise \<times> effect list) \<Rightarrow>
   world \<Rightarrow> transport \<Rightarrow> int \<Rightarrow> string \<Rightarrow> string \<Rightarrow> int promise" where
  \<comment> \<open>the state a new promise ends in when \<open>sent\<close> went to \<open>port\<close>: pending for ever
      without a reply, otherwise what the data callback, whose closure holds \<open>data\<close>,
      makes of the reply\<close>
  "settle callback w t port sent data =
     (case delivery w t port sent of
        None \<Rightarrow> Pending
      | Some (resp, now) \<Rightarrow> fst (callback data (getTime_start w t port) resp now Pending))"

definition ws_sent :: "effect list \<Rightarrow> string option" where
  \<comment> \<open>what a handler sends on the socket, if it sends\<close>
  "ws_sent es = (case [m. WsSend m \<leftarrow> es] of [] \<Rightarrow> None | m # _ \<Rightarrow> Some m)"

text \<open>
  \<open>quic.send\<close> and \<open>request\<close> are handed \<open>data\<close> directly. The WebSocket is opened, the
  \<open>open\<close> handler is registered and sends when the socket opens, and the reply that the
  \<open>message\<close> handler sees is the reply to what the \<open>open\<close> handler sent.
\<close>

definition runAsClient :: "world \<Rightarrow> int \<Rightarrow> int \<Rightarrow> int \<Rightarrow> state \<Rightarrow> timing promise \<times> state" where
  "runAsClient w quicPort httpPort wsPort s =
     (let data = readFileSync w (reads s);
          s1 = emit [ReadFile data] (s\<lparr>reads := reads s + 1\<rparr>);
          quicPromise = settle quic_onData w QUIC quicPort data data;
          s2 = emit [QuicSend quicPort data] s1;
          httpPromise = settle http_callback w HTTP httpPort data data;
          s3 = emit [HttpPost httpPort data] s2;
          onOpen = ws_onOpen data;
          wsPromise = (case ws_sent onOpen of
                         None \<Rightarrow> Pending
                       | Some sent \<Rightarrow> settle ws_onMessage w WS wsPort sent data);
          s4 = emit [WsOpen wsPort, WsOnOpen onOpen] s3
      in (Promise_all3 quicPromise httpPromise wsPromise, s4))"

definition runAsServer :: "int \<Rightarrow> int \<Rightarrow> int \<Rightarrow> state \<Rightarrow> state" where
  "runAsServer quicPort httpPort wsPort s =
     emit [QuicListen quicPort, HttpListen httpPort, WsListen wsPort] s"

definition sleep :: "nat \<Rightarrow> state \<Rightarrow> state" where
  "sleep duration s = emit [Sleep duration] s"

text \<open>
  The loop of \<open>main\<close>, \<open>for (let p = 8000; p < START_PORT + NUM_SPINUPS; p++)\<close>, from the
  current \<open>p\<close>, with \<open>responsePromises\<close> and the state it has reached.
\<close>

function main_loop ::
  "world \<Rightarrow> bool \<Rightarrow> int \<Rightarrow> int \<Rightarrow> int \<Rightarrow> timing promise list \<Rightarrow> state \<Rightarrow>
   timing promise list \<times> state" where
  "main_loop w isClient START_PORT NUM_SPINUPS p responsePromises s =
     (if p < START_PORT + NUM_SPINUPS then
        (if isClient then
           (let (promise, s1) = runAsClient w p (p + NUM_SPINUPS) (p + (NUM_SPINUPS * 2)) s
            in main_loop w isClient START_PORT NUM_SPINUPS (p + 1)
                 (responsePromises @ [promise]) (sleep 1 s1))
         else
           main_loop w isClient START_PORT NUM_SPINUPS (p + 1) responsePromises
             (runAsServer p (p + NUM_SPINUPS) (p + (NUM_SPINUPS * 2)) s))
      else (responsePromises, s))"
  by pat_completeness auto
termination
  by (relation "measure (\<lambda>(w, isClient, START_PORT, NUM_SPINUPS, p, responsePromises, s).
        nat (START_PORT + NUM_SPINUPS - p))") auto

declare main_loop.simps [simp del]

text \<open>
  How a run ends: the report is printed, \<open>_formatTimings\<close> throws, the joined promise is
  rejected, it stays pending, or (server mode) nothing follows the loop.
\<close>

datatype outcome = Reported report | Threw error | RejectedWith string | Stalled | Serving

definition main :: "world \<Rightarrow> bool \<Rightarrow> int \<Rightarrow> int \<Rightarrow> state \<Rightarrow> outcome \<times> state" where
  "main w isClient START_PORT NUM_SPINUPS s =
     (let (responsePromises, s1) = main_loop w isClient START_PORT NUM_SPINUPS 8000 [] s
      in if isClient then
           (case Promise_all responsePromises of
              Fulfilled timings \<Rightarrow>
                (case formatTimings timings (store s1) of
                   Inl e \<Rightarrow> (Threw e, s1)
                 | Inr (ret, h) \<Rightarrow> (Reported ret, emit [ConsoleLog ret] (s1\<lparr>store := h\<rparr>)))
            | Rejected reason \<Rightarrow> (RejectedWith reason, s1)
            | Pending \<Rightarrow> (Stalled, s1))
         else (Serving, s1))"

section \<open>Reference definitions\<close>

text \<open>
  The quantities the specification names, written from its words, to compare with what the
  code computes: the arithmetic mean, the population variance (the mean of the squared
  deviations from the mean) and the standard deviation (its square root).
\<close>

definition arithmetic_mean :: "int list \<Rightarrow> real" where
  "arithmetic_mean xs = real_of_int (sum_list xs) / real (length xs)"



text \<open>
  The specification's view of the report, one record of statistics per transport, and the
  column of the sample set that belongs to a transport.
\<close>

record transportStatistics =
  sortedDurations :: "int list"
  mean :: number
  median :: "int option"
  high :: "int option"
  low :: "int option"
  stdDev :: number
  topFive :: "int list"
  bottomFive :: "int list"

fun statistics_of :: "transport \<Rightarrow> report \<Rightarrow> transportStatistics" where
  "statistics_of QUIC ret =
     \<lparr> sortedDurations = quicResponses ret, mean = quicMean ret, median = quicMedian ret,
       high = quicHigh ret, low = quicLow ret, stdDev = quicStdDev ret,
       topFive = quicHighFive ret, bottomFive = quicLowFive ret \<rparr>"
| "statistics_of HTTP ret =
     \<lparr> sortedDurations = httpResponses ret, mean = httpMean ret, median = httpMedian ret,
       high = httpHigh ret, low = httpLow ret, stdDev = httpStdDev ret,
       topFive = httpHighFive ret, bottomFive = httpLowFive ret \<rparr>"
| "statistics_of WS ret =
     \<lparr> sortedDurations = wsResponses ret, mean = wsMean ret, median = wsMedian ret,
       high = wsHigh ret, low = wsLow ret, stdDev = wsStdDev ret,
       topFive = wsHighFive ret, bottomFive = wsLowFive ret \<rparr>"

fun durations :: "transport \<Rightarrow> timing list \<Rightarrow> int list" where
  "durations QUIC timings = map (\<lambda>timingPair. fst timingPair) timings"
| "durations HTTP timings = map (\<lambda>timingPair. fst (snd timingPair)) timings"
| "durations WS timings = map (\<lambda>timingPair. snd (snd timingPair)) timings"

text \<open>
  The port a transport is given for the instance whose loop variable is \<open>p\<close>, as \<open>main\<close>
  passes it to \<open>runAsClient\<close> and \<open>runAsServer\<close>.
\<close>

fun port_of :: "transport \<Rightarrow> int \<Rightarrow> int \<Rightarrow> int" where
  "port_of QUIC NUM_SPINUPS p = p"
| "port_of HTTP NUM_SPINUPS p = p + NUM_SPINUPS"
| "port_of WS NUM_SPINUPS p = p + (NUM_SPINUPS * 2)"

text \<open>
  \<open>at_least c v\<close>: the number \<open>v\<close> is not \<open>NaN\<close> and is \<open>c\<close> or more.
\<close>

definition at_least :: "real \<Rightarrow> number \<Rightarrow> bool" where
  "at_least c v = (case v of Finite y \<Rightarrow> c \<le> y | PInf \<Rightarrow> True | NInf \<Rightarrow> False | NaN \<Rightarrow> False)"

subsection \<open>Concrete runs\<close>

text \<open>
  The state of a fresh process, and three worlds for concrete runs: one whose transports
  echo the payload \<open>ping\<close> three milliseconds after dispatch, one whose payload file
  changes after its first read, and one whose QUIC transport replies with other bytes.
\<close>

definition initial_state :: state where
  "initial_state = \<lparr> reads = 0, effects = [], store = [] \<rparr>"

definition echo_world :: world where
  "echo_world =
     \<lparr> readFileSync = (\<lambda>k. ''ping''),
       getTime_start = (\<lambda>t port. 100),
       delivery = (\<lambda>t port data. Some (data, 103)) \<rparr>"

definition changing_world :: world where
  "changing_world =
     \<lparr> readFileSync = (\<lambda>k. if k = 0 then ''ping'' else ''pong''),
       getTime_start = (\<lambda>t port. 100),
       delivery = (\<lambda>t port data. Some (data, 103)) \<rparr>"

definition garbling_world :: world where
  "garbling_world =
     \<lparr> readFileSync = (\<lambda>k. ''ping''),
       getTime_start = (\<lambda>t port. 100),
       delivery = (\<lambda>t port data. if t = QUIC then Some (''pong'', 103) else Some (data, 103)) \<rparr>"

section \<open>Properties of the rounding\<close>

subsection \<open>The exponent\<close>

lemma find_expo_lower: "e \<le> find_expo k e a"
proof (induction k arbitrary: e)
  case 0 show ?case by simp
next
  case (Suc k)
  from Suc [of "e + 1"] show ?case by simp
qed

lemma find_expo_upper: "find_expo k e a \<le> e + int k"
proof (induction k arbitrary: e)
  case 0 show ?case by simp
next
  case (Suc k)
  from Suc [of "e + 1"] show ?case by simp
qed

lemma find_expo_ge: "e < find_expo k e a \<Longrightarrow> 2 powi (find_expo k e a) \<le> a"
proof (induction k arbitrary: e)
  case 0 then show ?case by simp
next
  case (Suc k)
  show ?case
  proof (cases "2 powi (e + 1) \<le> a")
    case True
    note t = this
    show ?thesis
    proof (cases "e + 1 < find_expo k (e + 1) a")
      case True
      from Suc.IH [OF this] t show ?thesis by simp
    next
      case False
      with find_expo_lower [of "e + 1" k a] have "find_expo k (e + 1) a = e + 1" by simp
      with t show ?thesis by simp
    qed
  next
    case False
    with Suc.prems show ?thesis by simp
  qed
qed

lemma find_expo_lt: "find_expo k e a < e + int k \<Longrightarrow> a < 2 powi (find_expo k e a + 1)"
proof (induction k arbitrary: e)
  case 0 then show ?case by simp
next
  case (Suc k)
  show ?case
  proof (cases "2 powi (e + 1) \<le> a")
    case True
    with Suc.prems have "find_expo k (e + 1) a < (e + 1) + int k" by simp
    from Suc.IH [OF this] True show ?thesis by simp
  next
    case False
    then show ?thesis by simp
  qed
qed

lemma expo_range: "- 1022 \<le> expo x" "expo x \<le> 1024"
  using find_expo_lower [of "- 1022" 2046 "\<bar>x\<bar>"] find_expo_upper [of 2046 "- 1022" "\<bar>x\<bar>"]
  by (simp_all add: expo_def)

lemma expo_ge: "- 1022 < expo x \<Longrightarrow> 2 powi (expo x) \<le> \<bar>x\<bar>"
  unfolding expo_def by (rule find_expo_ge)

lemma expo_lt: "expo x < 1024 \<Longrightarrow> \<bar>x\<bar> < 2 powi (expo x + 1)"
  unfolding expo_def using find_expo_lt [of 2046 "- 1022" "\<bar>x\<bar>"] by simp

lemma pow2_mono: "m \<le> n \<Longrightarrow> (2::real) powi m \<le> 2 powi n"
  by (rule power_int_increasing) simp_all


lemma pow2_le_D: "(2::real) powi m \<le> a \<Longrightarrow> a < 2 powi n \<Longrightarrow> m < n"
proof (rule ccontr)
  assume a: "2 powi m \<le> a" "a < 2 powi n" and "\<not> m < n"
  then have "n \<le> m" by simp
  from pow2_mono [OF this] a show False by simp
qed

lemma expo_eq:
  assumes "- 1022 \<le> e" "e \<le> 1023" "2 powi e \<le> \<bar>x\<bar>" "\<bar>x\<bar> < 2 powi (e + 1)"
  shows "expo x = e"
proof -
  have up: "expo x < e + 1"
  proof (cases "- 1022 < expo x")
    case True
    from pow2_le_D [OF expo_ge [OF True] assms(4)] show ?thesis .
  next
    case False
    with expo_range(1) [of x] assms(1) show ?thesis by simp
  qed
  then have "expo x < 1024" using assms(2) by simp
  from pow2_le_D [OF assms(3) expo_lt [OF this]] up show ?thesis by simp
qed

lemma expo_small: "\<bar>x\<bar> < 2 powi (- 1021) \<Longrightarrow> expo x = - 1022"
proof (rule ccontr)
  assume a: "\<bar>x\<bar> < 2 powi (- 1021)" and n: "expo x \<noteq> - 1022"
  with expo_range(1) [of x] have g: "- 1022 < expo x" by simp
  from pow2_le_D [OF expo_ge [OF g] a] g show False by simp
qed

lemma expo_minus [simp]: "expo (- x) = expo x"
  by (simp add: expo_def)

lemma expo_mono: "\<bar>x\<bar> \<le> \<bar>y\<bar> \<Longrightarrow> expo x \<le> expo y"
proof (rule ccontr)
  assume le: "\<bar>x\<bar> \<le> \<bar>y\<bar>" and "\<not> expo x \<le> expo y"
  then have lt: "expo y < expo x" by simp
  from lt expo_range(1) [of y] have gx: "- 1022 < expo x" by linarith
  from lt expo_range(2) [of x] have ly: "expo y < 1024" by linarith
  from expo_ge [OF gx] le have "2 powi (expo x) \<le> \<bar>y\<bar>" by simp
  from pow2_le_D [OF this expo_lt [OF ly]] have "expo x < expo y + 1" .
  with lt show False by simp
qed


subsection \<open>Rounding to an integer, ties to even\<close>

lemma roundTiesToEven_of_int [simp]: "roundTiesToEven (of_int k) = k"
  by (simp add: roundTiesToEven_def)

lemma roundTiesToEven_cases:
  "roundTiesToEven q = \<lfloor>q\<rfloor> \<and> q - of_int \<lfloor>q\<rfloor> \<le> 1 / 2
   \<or> roundTiesToEven q = \<lfloor>q\<rfloor> + 1 \<and> 1 / 2 \<le> q - of_int \<lfloor>q\<rfloor>"
  by (auto simp: roundTiesToEven_def Let_def)

lemma roundTiesToEven_ge: "of_int k \<le> q \<Longrightarrow> k \<le> roundTiesToEven q"
proof -
  assume "of_int k \<le> q"
  then have "k \<le> \<lfloor>q\<rfloor>" by (simp add: le_floor_iff)
  with roundTiesToEven_cases [of q] show ?thesis by auto
qed

lemma roundTiesToEven_le: "q \<le> of_int k \<Longrightarrow> roundTiesToEven q \<le> k"
proof (cases "q = of_int k")
  case True
  then show ?thesis by simp
next
  case False
  assume "q \<le> of_int k"
  with False have "q < of_int k" by simp
  then have "\<lfloor>q\<rfloor> < k" by (simp add: floor_less_iff)
  with roundTiesToEven_cases [of q] show ?thesis by auto
qed

lemma roundTiesToEven_mono:
  assumes "p \<le> q"
  shows "roundTiesToEven p \<le> roundTiesToEven q"
proof (cases "\<lfloor>p\<rfloor> = \<lfloor>q\<rfloor>")
  case True
  with assms show ?thesis
    by (auto simp: roundTiesToEven_def Let_def)
next
  case False
  with assms have "\<lfloor>p\<rfloor> < \<lfloor>q\<rfloor>" using floor_mono [OF assms] by simp
  then have "\<lfloor>p\<rfloor> + 1 \<le> \<lfloor>q\<rfloor>" by simp
  moreover have "roundTiesToEven p \<le> \<lfloor>p\<rfloor> + 1"
    using roundTiesToEven_cases [of p] by auto
  moreover have "\<lfloor>q\<rfloor> \<le> roundTiesToEven q"
    using roundTiesToEven_cases [of q] by auto
  ultimately show ?thesis by simp
qed

lemma roundTiesToEven_minus: "roundTiesToEven (- q) = - roundTiesToEven q"
proof (cases "q \<in> \<int>")
  case True
  then obtain k where "q = of_int k" by (auto elim: Ints_cases)
  then have "- q = of_int (- k)" by simp
  then show ?thesis using \<open>q = of_int k\<close> by (simp only: roundTiesToEven_of_int)
next
  case False
  then have ne: "q \<noteq> of_int \<lfloor>q\<rfloor>" by (metis Ints_of_int)
  then have fl: "\<lfloor>- q\<rfloor> = - \<lfloor>q\<rfloor> - 1"
    by (simp add: floor_minus ceiling_altdef)
  have r: "- q - of_int (- \<lfloor>q\<rfloor> - 1) = 1 - (q - of_int \<lfloor>q\<rfloor>)" by simp
  show ?thesis
    unfolding roundTiesToEven_def Let_def fl r
    by (auto simp: )
qed


subsection \<open>Rounding a real to a double\<close>

lemma pow2_pos [simp]: "0 < (2::real) powi e"
  by simp

lemma pow2_split: "(2::real) powi (a + b) = 2 powi a * 2 powi b"
  by (simp add: power_int_add)

lemma round_real_minus: "round_real (- x) = - round_real x"
  by (simp add: round_real_def Let_def roundTiesToEven_minus)

lemma round_real_0 [simp]: "round_real 0 = 0"
  using roundTiesToEven_of_int [of 0] by (simp add: round_real_def Let_def del: roundTiesToEven_of_int)

lemma round_real_nonneg: "0 \<le> x \<Longrightarrow> 0 \<le> round_real x"
proof -
  assume "0 \<le> x"
  then have "of_int 0 \<le> x / 2 powi (expo x - 52)" by simp
  from roundTiesToEven_ge [OF this] show ?thesis
    by (simp add: round_real_def Let_def)
qed

lemma round_real_nonpos: "x \<le> 0 \<Longrightarrow> round_real x \<le> 0"
  using round_real_nonneg [of "- x"] by (simp add: round_real_minus)

lemma round_real_upper:
  assumes "0 \<le> x" "expo x < 1024"
  shows "round_real x \<le> 2 powi (expo x + 1)"
proof -
  let ?u = "(2::real) powi (expo x - 52)"
  have "expo x + 1 = 53 + (expo x - 52)" by simp
  then have sp: "(2::real) powi (expo x + 1) = 2 ^ 53 * ?u"
    by (simp only: pow2_split) simp
  from expo_lt [OF assms(2)] assms(1) have "x < 2 ^ 53 * ?u" by (simp add: sp)
  then have "x / ?u \<le> of_int (2 ^ 53)" by (simp add: pos_divide_le_eq)
  from roundTiesToEven_le [OF this] have "roundTiesToEven (x / ?u) \<le> 2 ^ 53" .
  then have "real_of_int (roundTiesToEven (x / ?u)) \<le> 2 ^ 53"
    by (metis of_int_le_iff of_int_numeral of_int_power)
  then have "real_of_int (roundTiesToEven (x / ?u)) * ?u \<le> 2 ^ 53 * ?u"
    by (simp add: mult_right_mono)
  then show ?thesis by (simp add: round_real_def Let_def sp)
qed

lemma round_real_lower:
  assumes "0 \<le> x" "- 1022 < expo x"
  shows "2 powi (expo x) \<le> round_real x"
proof -
  let ?u = "(2::real) powi (expo x - 52)"
  have "expo x = 52 + (expo x - 52)" by simp
  then have "(2::real) powi (expo x) = 2 powi (52 + (expo x - 52))" by simp
  then have sp: "(2::real) powi (expo x) = 2 ^ 52 * ?u"
    by (simp only: pow2_split) simp
  from expo_ge [OF assms(2)] assms(1) have "2 ^ 52 * ?u \<le> x" by (simp add: sp)
  then have "of_int (2 ^ 52) \<le> x / ?u" by (simp add: pos_le_divide_eq)
  from roundTiesToEven_ge [OF this] have "2 ^ 52 \<le> roundTiesToEven (x / ?u)" .
  then have "2 ^ 52 \<le> real_of_int (roundTiesToEven (x / ?u))"
    by (metis of_int_le_iff of_int_numeral of_int_power)
  then have "2 ^ 52 * ?u \<le> real_of_int (roundTiesToEven (x / ?u)) * ?u"
    by (simp add: mult_right_mono)
  then show ?thesis by (simp add: round_real_def Let_def sp)
qed

lemma round_real_mono_nonneg:
  assumes "0 \<le> x" "x \<le> y"
  shows "round_real x \<le> round_real y"
proof -
  from assms have y0: "0 \<le> y" by simp
  from assms have "\<bar>x\<bar> \<le> \<bar>y\<bar>" by simp
  then have le: "expo x \<le> expo y" by (rule expo_mono)
  show ?thesis
  proof (cases "expo x = expo y")
    case True
    let ?u = "(2::real) powi (expo y - 52)"
    from assms(2) have "x / ?u \<le> y / ?u" by (simp add: divide_right_mono)
    from roundTiesToEven_mono [OF this]
    have "real_of_int (roundTiesToEven (x / ?u)) * ?u \<le> real_of_int (roundTiesToEven (y / ?u)) * ?u"
      by (simp add: mult_right_mono)
    then show ?thesis by (simp add: round_real_def Let_def True)
  next
    case False
    with le have lt: "expo x < expo y" by simp
    with expo_range(2) [of y] have "expo x < 1024" by linarith
    from round_real_upper [OF assms(1) this] have a: "round_real x \<le> 2 powi (expo x + 1)" .
    from lt expo_range(1) [of x] have "- 1022 < expo y" by linarith
    from round_real_lower [OF y0 this] have b: "2 powi (expo y) \<le> round_real y" .
    from lt have "expo x + 1 \<le> expo y" by simp
    from pow2_mono [OF this] a b show ?thesis by linarith
  qed
qed

lemma round_real_mono:
  assumes "x \<le> y"
  shows "round_real x \<le> round_real y"
proof (cases "0 \<le> x")
  case True
  then show ?thesis using assms by (rule round_real_mono_nonneg)
next
  case False
  note xneg = this
  show ?thesis
  proof (cases "0 \<le> y")
    case True
    from xneg have "round_real x \<le> 0" by (simp add: round_real_nonpos)
    with round_real_nonneg [OF True] show ?thesis by linarith
  next
    case False
    with assms have "0 \<le> - y" "- y \<le> - x" by simp_all
    from round_real_mono_nonneg [OF this] show ?thesis by (simp add: round_real_minus)
  qed
qed

lemma round_real_eval:
  assumes "- 1022 \<le> e" "e \<le> 1023" "2 powi e \<le> \<bar>x\<bar>" "\<bar>x\<bar> < 2 powi (e + 1)"
  shows "round_real x = of_int (roundTiesToEven (x / 2 powi (e - 52))) * 2 powi (e - 52)"
  by (simp add: round_real_def Let_def expo_eq [OF assms])

lemma round_real_exact:
  assumes "expo x = e" "x = of_int m * 2 powi (e - 52)"
  shows "round_real x = x"
proof -
  have "x / 2 powi (e - 52) = of_int m"
    by (subst assms(2)) simp
  then show ?thesis using assms by (simp add: round_real_def Let_def)
qed



lemma expo_1: "expo 1 = 0"
  by (rule expo_eq) simp_all

lemma expo_2_53: "expo 9007199254740992 = 53"
  by (rule expo_eq) simp_all

lemma round_real_of_nat_int:
  assumes "0 < k" "k \<le> 2 ^ 53"
  shows "round_real (of_int k) = of_int k"
proof -
  let ?e = "expo (of_int k)"
  from assms(1) have "\<bar>1::real\<bar> \<le> \<bar>of_int k\<bar>" by simp
  from expo_mono [OF this] have e0: "0 \<le> ?e" by (simp add: expo_1)
  from assms have "\<bar>real_of_int k\<bar> \<le> \<bar>2 ^ 53\<bar>"
    by (metis abs_of_nonneg less_imp_le of_int_le_iff of_int_numeral of_int_power of_int_0_le_iff
        zero_le_numeral zero_le_power)
  from expo_mono [OF this] have e53: "?e \<le> 53" by (simp add: expo_2_53)
  show ?thesis
  proof (cases "?e \<le> 52")
    case True
    define n where "n = nat (52 - ?e)"
    have "?e - 52 = - int n" using True by (simp add: n_def)
    then have u: "(2::real) powi (?e - 52) = 1 / 2 ^ n"
      by (simp add: power_int_minus_divide)
    have "real_of_int k = of_int (k * 2 ^ n) * 2 powi (?e - 52)"
      by (simp add: u)
    with refl show ?thesis by (rule round_real_exact)
  next
    case False
    with e53 have e: "?e = 53" by simp
    then have "- 1022 < ?e" by simp
    from expo_ge [OF this] assms(1) have "2 ^ 53 \<le> real_of_int k" by (simp add: e)
    then have "2 ^ 53 \<le> k"
      by (metis of_int_le_iff of_int_numeral of_int_power)
    with assms(2) have k: "k = 2 ^ 53" by simp
    have "real_of_int k = of_int (2 ^ 52) * 2 powi (53 - 52)"
      by (simp add: k)
    with e show ?thesis by (rule round_real_exact)
  qed
qed

lemma round_real_of_int:
  assumes "\<bar>k\<bar> \<le> 2 ^ 53"
  shows "round_real (of_int k) = of_int k"
proof (cases "0 < k")
  case True
  with assms show ?thesis by (simp add: round_real_of_nat_int)
next
  case False
  show ?thesis
  proof (cases "k = 0")
    case True
    then show ?thesis by simp
  next
    case False
    with \<open>\<not> 0 < k\<close> assms have "0 < - k" "- k \<le> 2 ^ 53" by simp_all
    from round_real_of_nat_int [OF this] have "round_real (- of_int k) = - of_int k" by simp
    then show ?thesis by (simp add: round_real_minus)
  qed
qed

lemma round_real_ge_int:
  assumes "\<bar>k\<bar> \<le> 2 ^ 53" "of_int k \<le> x"
  shows "of_int k \<le> round_real x"
  using round_real_mono [OF assms(2)] round_real_of_int [OF assms(1)] by simp

lemma round_real_le_int:
  assumes "\<bar>k\<bar> \<le> 2 ^ 53" "x \<le> of_int k"
  shows "round_real x \<le> of_int k"
  using round_real_mono [OF assms(2)] round_real_of_int [OF assms(1)] by simp


subsection \<open>Numbers\<close>

lemma fl_0 [simp]: "fl 0 = Finite 0"
  by (simp add: fl_def)

lemma fl_of_int: "\<bar>k\<bar> \<le> 2 ^ 53 \<Longrightarrow> fl (of_int k) = Finite (of_int k)"
proof -
  assume a: "\<bar>k\<bar> \<le> 2 ^ 53"
  then have "\<bar>real_of_int k\<bar> \<le> 2 ^ 53"
    by (metis of_int_abs of_int_le_iff of_int_numeral of_int_power)
  moreover have "(2::real) ^ 53 < 2 powi 1024" by simp
  ultimately show ?thesis
    by (simp add: fl_def Let_def round_real_of_int [OF a])
qed

section \<open>Properties of the sort and of the statistics\<close>

subsection \<open>The sort\<close>

text \<open>
  With the comparator of \<open>_sort\<close> applied to a key, the built-in sort is the stable sort by
  that key; on plain numbers it is the ascending sort.
\<close>

lemma SortCompare_key_le:
  "SortCompare (\<lambda>a b. sort_comparefn (key a) (key b)) x y \<le> 0 \<longleftrightarrow> key x \<le> key y"
  by (simp add: SortCompare_def sort_comparefn_def)

lemma sort_insert_key:
  "sort_insert (\<lambda>a b. sort_comparefn (key a) (key b)) x ys = insort_key key x ys"
  by (induction ys) (simp_all add: SortCompare_key_le)

lemma Array_sort_key:
  "Array_sort (\<lambda>a b. sort_comparefn (key a) (key b)) xs = sort_key key xs"
  by (induction xs) (simp_all add: sort_insert_key)

lemma Array_sort_stable:
  "filter (\<lambda>y. key y = k) (Array_sort (\<lambda>a b. sort_comparefn (key a) (key b)) xs) =
   filter (\<lambda>y. key y = k) xs"
  by (simp add: Array_sort_key sort_key_stable)

lemma Array_sort_nums: "Array_sort sort_comparefn xs = sort xs"
  using Array_sort_key [of "\<lambda>x. x" xs] by simp

subsection \<open>Operations on numbers\<close>

lemma fl_eval:
  assumes "- 1022 \<le> e" "e \<le> 1023" "2 powi e \<le> \<bar>x\<bar>" "\<bar>x\<bar> < 2 powi (e + 1)"
    and "roundTiesToEven (x / 2 powi (e - 52)) = m"
    and "\<bar>of_int m * 2 powi (e - 52)\<bar> < (2::real) powi 1024"
  shows "fl x = Finite (of_int m * 2 powi (e - 52))"
  using assms(5,6) by (simp add: fl_def Let_def round_real_eval [OF assms(1-4)])

lemma fl_not_NaN [simp]: "fl x \<noteq> NaN"
  by (simp add: fl_def Let_def)

lemma fl_at_least:
  assumes "0 \<le> c" "c \<le> round_real x"
  shows "at_least c (fl x)"
  using assms by (simp add: fl_def Let_def at_least_def)

lemma fl_nonneg: "0 \<le> x \<Longrightarrow> at_least 0 (fl x)"
  by (rule fl_at_least) (simp_all add: round_real_nonneg)

lemma fl_bounded:
  assumes "\<bar>lo\<bar> \<le> 2 ^ 53" "\<bar>hi\<bar> \<le> 2 ^ 53" "of_int lo \<le> x" "x \<le> of_int hi"
  shows "fl x = Finite (round_real x)"
    and "of_int lo \<le> round_real x" and "round_real x \<le> of_int hi"
proof -
  show l: "of_int lo \<le> round_real x" by (rule round_real_ge_int [OF assms(1,3)])
  show h: "round_real x \<le> of_int hi" by (rule round_real_le_int [OF assms(2,4)])
  have "\<bar>real_of_int lo\<bar> \<le> 2 ^ 53" "\<bar>real_of_int hi\<bar> \<le> 2 ^ 53"
    using assms(1,2) by (metis of_int_abs of_int_le_iff of_int_numeral of_int_power)+
  with l h have "\<bar>round_real x\<bar> \<le> 2 ^ 53" by linarith
  moreover have "(2::real) ^ 53 < 2 powi 1024" by simp
  ultimately show "fl x = Finite (round_real x)" by (simp add: fl_def Let_def)
qed

lemma at_least_not_NaN: "at_least c v \<Longrightarrow> v \<noteq> NaN"
  by (auto simp: at_least_def)

lemma at_least_weaken: "at_least c v \<Longrightarrow> c' \<le> c \<Longrightarrow> at_least c' v"
  by (cases v) (simp_all add: at_least_def)

lemma num_add_not_NaN_Finite: "a \<noteq> NaN \<Longrightarrow> num_add a (Finite y) \<noteq> NaN"
  by (cases a) simp_all

lemma num_add_at_least_right:
  assumes "round_real c = c" "0 \<le> c" "at_least 0 a" "at_least c b"
  shows "at_least c (num_add a b)"
proof (cases a)
  case (Finite x)
  note a = this
  show ?thesis
  proof (cases b)
    case (Finite y)
    with a assms(3,4) have "c \<le> x + y" by (simp add: at_least_def)
    from round_real_mono [OF this] assms(1) have "c \<le> round_real (x + y)" by simp
    from fl_at_least [OF assms(2) this] a Finite show ?thesis by simp
  qed (use a assms in \<open>simp_all add: at_least_def\<close>)
next
  case PInf
  with assms(4) show ?thesis by (cases b) (simp_all add: at_least_def)
qed (use assms in \<open>simp_all add: at_least_def\<close>)


lemma num_div_length_not_NaN: "v \<noteq> NaN \<Longrightarrow> 0 < n \<Longrightarrow> num_div_length v n \<noteq> NaN"
  by (cases v) simp_all

lemma num_div_length_at_least:
  assumes "round_real c' = c'" "0 \<le> c'" "c' * real n \<le> c" "at_least c v" "0 < n"
  shows "at_least c' (num_div_length v n)"
proof (cases v)
  case (Finite x)
  with assms(4) have "c \<le> x" by (simp add: at_least_def)
  with assms(3) have "c' * real n \<le> x" by simp
  with assms(5) have "c' \<le> x / real n" by (simp add: pos_le_divide_eq)
  from round_real_mono [OF this] assms(1) have "c' \<le> round_real (x / real n)" by simp
  from fl_at_least [OF assms(2) this] Finite assms(5) show ?thesis by simp
qed (use assms in \<open>simp_all add: at_least_def\<close>)

lemma Math_pow2_nonneg: "v \<noteq> NaN \<Longrightarrow> at_least 0 (Math_pow2 v)"
  by (cases v) (simp_all add: fl_nonneg, simp_all add: at_least_def)

lemma Math_sqrt_at_least:
  assumes "round_real c' = c'" "0 \<le> c'" "c' * c' \<le> c" "at_least c v"
  shows "at_least c' (Math_sqrt v)"
proof (cases v)
  case (Finite x)
  with assms(4) have cx: "c \<le> x" by (simp add: at_least_def)
  with assms(2,3) have x0: "0 \<le> x"
    by (meson mult_nonneg_nonneg order_trans)
  from assms(3) cx have "c' * c' \<le> x" by simp
  then have "c' \<le> sqrt x" by (intro real_le_rsqrt) (simp add: power2_eq_square)
  from round_real_mono [OF this] assms(1) have "c' \<le> round_real (sqrt x)" by simp
  from fl_at_least [OF assms(2) this] Finite x0 show ?thesis by simp
qed (use assms in \<open>simp_all add: at_least_def\<close>)

lemma num_sub_not_NaN_Finite: "m \<noteq> NaN \<Longrightarrow> num_sub (Finite x) m \<noteq> NaN"
  by (cases m) simp_all

subsection \<open>Mean, variance and standard deviation\<close>

lemma mean_sum_not_NaN:
  "acc \<noteq> NaN \<Longrightarrow> foldl (\<lambda>sum num. num_add sum (num_of_int num)) acc xs \<noteq> NaN"
  by (induction xs arbitrary: acc) (simp_all add: num_add_not_NaN_Finite num_of_int_def)

lemma calculateMean_not_NaN:
  "nums \<noteq> [] \<Longrightarrow> \<exists>m. calculateMean nums = Inr m \<and> m \<noteq> NaN"
proof (cases nums)
  case Nil
  assume "nums \<noteq> []"
  with Nil show ?thesis by simp
next
  case (Cons x xs)
  have "foldl (\<lambda>sum num. num_add sum (num_of_int num)) (num_of_int x) xs \<noteq> NaN"
    by (rule mean_sum_not_NaN) (simp add: num_of_int_def)
  then show ?thesis
    by (simp add: Cons calculateMean_def Let_def num_div_length_not_NaN)
qed

lemma variance_term_nonneg:
  "m \<noteq> NaN \<Longrightarrow> at_least 0 (Math_pow2 (num_sub (num_of_int x) m))"
  by (simp add: Math_pow2_nonneg num_sub_not_NaN_Finite num_of_int_def)

lemma variance_sum_at_least_acc:
  assumes "m \<noteq> NaN" "round_real c = c" "0 \<le> c"
  shows "at_least c acc \<Longrightarrow>
         at_least c (foldl (\<lambda>variance num.
                       num_add (Math_pow2 (num_sub (num_of_int num) m)) variance) acc nums)"
proof (induction nums arbitrary: acc)
  case Nil
  then show ?case by simp
next
  case (Cons x xs)
  have "at_least c (num_add (Math_pow2 (num_sub (num_of_int x) m)) acc)"
    by (rule num_add_at_least_right [OF assms(2,3) variance_term_nonneg [OF assms(1)] Cons.prems])
  from Cons.IH [OF this] show ?case by simp
qed


lemma calculateVariance_nonneg:
  assumes "m \<noteq> NaN" "nums \<noteq> []"
  shows "at_least 0 (calculateVariance m nums)"
proof -
  have z: "round_real 0 = 0" by simp
  have "at_least 0 (Finite 0)" by (simp add: at_least_def)
  from variance_sum_at_least_acc [OF assms(1) z order_refl this, of nums]
  have f: "at_least 0 (foldl (\<lambda>variance num.
             num_add (Math_pow2 (num_sub (num_of_int num) m)) variance) (Finite 0) nums)" .
  from assms(2) have n: "0 < length nums" by simp
  have "0 * real (length nums) \<le> 0" by simp
  from num_div_length_at_least [OF z order_refl this f n]
  show ?thesis by (simp add: calculateVariance_def Let_def)
qed

lemma calculateStdDev_nonneg:
  assumes "nums \<noteq> []"
  shows "\<exists>sd. calculateStdDev nums = Inr sd \<and> at_least 0 sd"
proof -
  from calculateMean_not_NaN [OF assms] obtain m where
    m: "calculateMean nums = Inr m" "m \<noteq> NaN" by blast
  have z: "round_real 0 = 0" by simp
  have "at_least 0 (Math_sqrt (calculateVariance m nums))"
    by (rule Math_sqrt_at_least [OF z order_refl _ calculateVariance_nonneg [OF m(2) assms]]) simp
  with m show ?thesis by (simp add: calculateStdDev_def)
qed


text \<open>
  While every partial sum stays within \<open>2 ^ 53\<close> in absolute value the additions are exact.
\<close>

lemma mean_sum_exact:
  assumes "\<forall>x\<in>set xs. \<bar>x\<bar> \<le> B"
  shows "\<bar>a\<bar> + B * int (length xs) \<le> 2 ^ 53 \<Longrightarrow>
         foldl (\<lambda>sum num. num_add sum (num_of_int num)) (num_of_int a) xs =
         num_of_int (a + sum_list xs)"
  using assms
proof (induction xs arbitrary: a)
  case Nil
  then show ?case by simp
next
  case (Cons x xs)
  from Cons.prems(2) have xB: "\<bar>x\<bar> \<le> B" and rest: "\<forall>y\<in>set xs. \<bar>y\<bar> \<le> B" by simp_all
  from xB have B0: "0 \<le> B" by linarith
  define L where "L = B * int (length xs)"
  from B0 have L0: "0 \<le> L" by (simp add: L_def)
  from Cons.prems(1) have total: "\<bar>a\<bar> + (B + L) \<le> 2 ^ 53"
    by (simp add: L_def algebra_simps)
  from total xB L0 have small: "\<bar>a + x\<bar> \<le> 2 ^ 53" by linarith
  from total xB have "\<bar>a + x\<bar> + L \<le> 2 ^ 53" by linarith
  then have next_ok: "\<bar>a + x\<bar> + B * int (length xs) \<le> 2 ^ 53" by (simp add: L_def)
  have step: "num_add (num_of_int a) (num_of_int x) = num_of_int (a + x)"
    using fl_of_int [OF small] by (simp add: num_of_int_def)
  show ?case
    using Cons.IH [OF next_ok rest] by (simp add: step add.assoc)
qed

lemma bound_all:
  assumes "nums \<noteq> []" "\<forall>x\<in>set nums. \<bar>x\<bar> * int (length nums) \<le> 2 ^ 53"
  obtains B where "\<forall>x\<in>set nums. \<bar>x\<bar> \<le> B" "B * int (length nums) \<le> 2 ^ 53" "0 \<le> B"
proof -
  let ?B = "Max ((\<lambda>x. \<bar>x\<bar>) ` set nums)"
  have fin: "finite ((\<lambda>x. \<bar>x\<bar>) ` set nums)" and ne: "(\<lambda>x. \<bar>x\<bar>) ` set nums \<noteq> {}"
    using assms(1) by simp_all
  from Max_in [OF fin ne] obtain y where y: "y \<in> set nums" "?B = \<bar>y\<bar>" by auto
  have "\<forall>x\<in>set nums. \<bar>x\<bar> \<le> ?B" using fin by (simp add: Max_ge)
  moreover from y assms(2) have "?B * int (length nums) \<le> 2 ^ 53" by simp
  moreover from y have "0 \<le> ?B" by simp
  ultimately show ?thesis by (rule that)
qed

lemma calculateMean_exact_sum:
  assumes "nums \<noteq> []" "\<forall>x\<in>set nums. \<bar>x\<bar> * int (length nums) \<le> 2 ^ 53"
  shows "calculateMean nums = Inr (fl (arithmetic_mean nums))"
proof -
  from bound_all [OF assms] obtain B where
    B: "\<forall>x\<in>set nums. \<bar>x\<bar> \<le> B" "B * int (length nums) \<le> 2 ^ 53" "0 \<le> B" by blast
  from assms(1) obtain x xs where nums: "nums = x # xs" by (cases nums) auto
  from B(1) have xB: "\<bar>x\<bar> \<le> B" and rest: "\<forall>y\<in>set xs. \<bar>y\<bar> \<le> B" by (simp_all add: nums)
  from B(2) xB have "\<bar>x\<bar> + B * int (length xs) \<le> 2 ^ 53"
    by (simp add: nums algebra_simps)
  from mean_sum_exact [OF rest this]
  show ?thesis
    by (simp add: calculateMean_def nums Let_def num_of_int_def arithmetic_mean_def)
qed

lemma sum_list_lower: "\<forall>x\<in>set xs. (lo::int) \<le> x \<Longrightarrow> int (length xs) * lo \<le> sum_list xs"
  by (induction xs) (simp_all add: algebra_simps)

lemma sum_list_upper: "\<forall>x\<in>set xs. x \<le> (hi::int) \<Longrightarrow> sum_list xs \<le> int (length xs) * hi"
  by (induction xs) (simp_all add: algebra_simps)

lemma arithmetic_mean_between:
  assumes "xs \<noteq> []" "\<forall>x\<in>set xs. lo \<le> x" "\<forall>x\<in>set xs. x \<le> hi"
  shows "real_of_int lo \<le> arithmetic_mean xs" and "arithmetic_mean xs \<le> real_of_int hi"
proof -
  have n: "0 < real (length xs)" using assms(1) by simp
  have "real_of_int (int (length xs) * lo) \<le> real_of_int (sum_list xs)"
    using sum_list_lower [OF assms(2)] by (simp only: of_int_le_iff)
  then have "real (length xs) * real_of_int lo \<le> real_of_int (sum_list xs)"
    by simp
  then show "real_of_int lo \<le> arithmetic_mean xs"
    using n by (simp add: arithmetic_mean_def pos_le_divide_eq mult.commute)
  have "real_of_int (sum_list xs) \<le> real_of_int (int (length xs) * hi)"
    using sum_list_upper [OF assms(3)] by (simp only: of_int_le_iff)
  then have "real_of_int (sum_list xs) \<le> real (length xs) * real_of_int hi"
    by simp
  then show "arithmetic_mean xs \<le> real_of_int hi"
    using n by (simp add: arithmetic_mean_def pos_divide_le_eq mult.commute)
qed

lemma element_small:
  assumes "x \<in> set nums" "\<forall>x\<in>set nums. \<bar>x\<bar> * int (length nums) \<le> 2 ^ 53"
  shows "\<bar>x\<bar> \<le> 2 ^ 53"
proof -
  from assms(1) have "1 \<le> int (length nums)" by (cases nums) auto
  then have "\<bar>x\<bar> * 1 \<le> \<bar>x\<bar> * int (length nums)" by (intro mult_left_mono) simp_all
  with assms show ?thesis by fastforce
qed

lemma calculateMean_bracket:
  assumes "nums \<noteq> []" "\<forall>x\<in>set nums. \<bar>x\<bar> * int (length nums) \<le> 2 ^ 53"
    and "lo \<in> set nums" "hi \<in> set nums" "\<forall>x\<in>set nums. lo \<le> x" "\<forall>x\<in>set nums. x \<le> hi"
  shows "calculateMean nums = Inr (Finite (round_real (arithmetic_mean nums)))"
    and "real_of_int lo \<le> round_real (arithmetic_mean nums)"
    and "round_real (arithmetic_mean nums) \<le> real_of_int hi"
proof -
  note b = fl_bounded [OF element_small [OF assms(3,2)] element_small [OF assms(4,2)]
      arithmetic_mean_between [OF assms(1,5,6)]]
  from b(1) show "calculateMean nums = Inr (Finite (round_real (arithmetic_mean nums)))"
    by (simp add: calculateMean_exact_sum [OF assms(1,2)])
  from b(2) show "real_of_int lo \<le> round_real (arithmetic_mean nums)" .
  from b(3) show "round_real (arithmetic_mean nums) \<le> real_of_int hi" .
qed









text \<open>
  Three equal durations whose sum is not a double.
\<close>

lemma fl_small_ints [simp]: "fl 1 = Finite 1" "fl 2 = Finite 2" "fl 3 = Finite 3"
  using fl_of_int [of 1] fl_of_int [of 2] fl_of_int [of 3] by simp_all

lemma fl_big_sum2 [simp]: "fl 18014398509481980 = Finite 18014398509481980"
  using fl_eval [where e = 53 and x = 18014398509481980 and m = 9007199254740990]
  by (simp add: roundTiesToEven_def)

lemma fl_big_sum3 [simp]: "fl 27021597764222970 = Finite 27021597764222968"
  using fl_eval [where e = 54 and x = 27021597764222970 and m = 6755399441055742]
  by (simp add: roundTiesToEven_def)

lemma fl_big_mean [simp]: "fl (27021597764222968 / 3) = Finite 9007199254740989"
  using fl_eval [where e = 52 and x = "27021597764222968 / 3" and m = 9007199254740989]
  by (simp add: roundTiesToEven_def)

lemma calculateMean_big:
  "calculateMean [9007199254740990, 9007199254740990, 9007199254740990] =
     Inr (Finite 9007199254740989)"
  by (simp add: calculateMean_def num_of_int_def)

lemma calculateStdDev_big:
  "calculateStdDev [9007199254740990, 9007199254740990, 9007199254740990] = Inr (Finite 1)"
  by (simp add: calculateStdDev_def calculateMean_big calculateVariance_def num_of_int_def)






















subsection \<open>The formatting step\<close>

lemma sort_nums_valid:
  "nums < length h \<Longrightarrow> sort_nums nums h = (nums, h[nums := sort (h ! nums)])"
  by (simp add: sort_nums_def Array_sort_nums)

lemma sort_Nil_iff: "sort xs = [] \<longleftrightarrow> xs = []"
  by (metis length_sort length_0_conv)

lemma formatTimings_nonempty:
  assumes "timings \<noteq> []"
  shows "\<exists>ret. formatTimings timings h0 =
           Inr (ret, h0 @ [sort (durations QUIC timings), sort (durations HTTP timings),
                           sort (durations WS timings)])
         \<and> (\<forall>t. sortedDurations (statistics_of t ret) = sort (durations t timings)
              \<and> calculateMean (sort (durations t timings)) = Inr (mean (statistics_of t ret))
              \<and> median (statistics_of t ret) = calculateMedian (sort (durations t timings))
              \<and> high (statistics_of t ret) = calculateHigh (sort (durations t timings))
              \<and> low (statistics_of t ret) = calculateLow (sort (durations t timings))
              \<and> calculateStdDev (sort (durations t timings)) = Inr (stdDev (statistics_of t ret))
              \<and> topFive (statistics_of t ret) = getHighFive (sort (durations t timings))
              \<and> bottomFive (statistics_of t ret) = getLowFive (sort (durations t timings)))"
proof -
  have ne: "sort (durations t timings) \<noteq> []" for t
    using assms by (cases t) (simp_all add: sort_Nil_iff)
  have "\<exists>m. calculateMean (sort (durations t timings)) = Inr m" for t
    using calculateMean_not_NaN [OF ne [of t]] by blast
  then obtain M where M: "\<And>t. calculateMean (sort (durations t timings)) = Inr (M t)"
    by metis
  have "\<exists>sd. calculateStdDev (sort (durations t timings)) = Inr sd" for t
    using calculateStdDev_nonneg [OF ne [of t]] by blast
  then obtain S where S: "\<And>t. calculateStdDev (sort (durations t timings)) = Inr (S t)"
    by metis
  define ret where "ret =
     \<lparr> quicResponses = sort (durations QUIC timings),
       httpResponses = sort (durations HTTP timings),
       wsResponses = sort (durations WS timings),
       quicMean = M QUIC, httpMean = M HTTP, wsMean = M WS,
       quicMedian = calculateMedian (sort (durations QUIC timings)),
       httpMedian = calculateMedian (sort (durations HTTP timings)),
       wsMedian = calculateMedian (sort (durations WS timings)),
       quicHigh = calculateHigh (sort (durations QUIC timings)),
       httpHigh = calculateHigh (sort (durations HTTP timings)),
       wsHigh = calculateHigh (sort (durations WS timings)),
       quicLow = calculateLow (sort (durations QUIC timings)),
       httpLow = calculateLow (sort (durations HTTP timings)),
       wsLow = calculateLow (sort (durations WS timings)),
       quicStdDev = S QUIC, httpStdDev = S HTTP, wsStdDev = S WS,
       quicHighFive = getHighFive (sort (durations QUIC timings)),
       httpHighFive = getHighFive (sort (durations HTTP timings)),
       wsHighFive = getHighFive (sort (durations WS timings)),
       quicLowFive = getLowFive (sort (durations QUIC timings)),
       httpLowFive = getLowFive (sort (durations HTTP timings)),
       wsLowFive = getLowFive (sort (durations WS timings)) \<rparr>"
  have eq: "formatTimings timings h0 =
      Inr (ret, h0 @ [sort (durations QUIC timings), sort (durations HTTP timings),
                      sort (durations WS timings)])"
    using M [of QUIC] M [of HTTP] M [of WS] S [of QUIC] S [of HTTP] S [of WS]
    unfolding ret_def
    by (simp add: formatTimings_def Array_map_alloc_def sort_nums_valid deref_def nth_append
        list_update_append)
  have "sortedDurations (statistics_of t ret) = sort (durations t timings)
      \<and> calculateMean (sort (durations t timings)) = Inr (mean (statistics_of t ret))
      \<and> median (statistics_of t ret) = calculateMedian (sort (durations t timings))
      \<and> high (statistics_of t ret) = calculateHigh (sort (durations t timings))
      \<and> low (statistics_of t ret) = calculateLow (sort (durations t timings))
      \<and> calculateStdDev (sort (durations t timings)) = Inr (stdDev (statistics_of t ret))
      \<and> topFive (statistics_of t ret) = getHighFive (sort (durations t timings))
      \<and> bottomFive (statistics_of t ret) = getLowFive (sort (durations t timings))" for t
    using M [of t] S [of t] by (cases t) (simp_all add: ret_def)
  with eq show ?thesis by blast
qed

lemma length_durations: "length (durations t timings) = length timings"
  by (cases t) simp_all

lemma durations_Nil_iff: "durations t timings = [] \<longleftrightarrow> timings = []"
  by (cases t) simp_all

lemma calculateMedian_nonempty:
  "nums \<noteq> [] \<Longrightarrow> calculateMedian nums = Some (nums ! (length nums div 2))"
  by (simp add: calculateMedian_def)

lemma calculateLow_nonempty: "nums \<noteq> [] \<Longrightarrow> calculateLow nums = Some (nums ! 0)"
  by (cases nums) (simp_all add: calculateLow_def)

lemma calculateHigh_nonempty:
  "nums \<noteq> [] \<Longrightarrow> calculateHigh nums = Some (nums ! (length nums - 1))"
  by (simp add: calculateHigh_def)

lemma sorted_between_ends:
  assumes "sorted xs" and "i < length xs"
  shows "xs ! 0 \<le> xs ! i" and "xs ! i \<le> xs ! (length xs - 1)"
  using assms by (simp_all add: sorted_iff_nth_mono)

text \<open>
  C4. For a non-empty sample set, the median that the statistics report for each transport
  is the element at index \<open>floor(n/2)\<close> of that transport's durations sorted ascending;
  for even \<open>n\<close> this is the upper of the two middle elements (sorted 10, 20, 30, 40 gives
  30).
\<close>

theorem median_upper_middle:
  assumes "timings \<noteq> []"
  shows "\<exists>ret h. formatTimings timings h0 = Inr (ret, h)
           \<and> (\<forall>t. median (statistics_of t ret) =
                  Some (sort (durations t timings) ! (length timings div 2)))"
proof -
  from formatTimings_nonempty [OF assms, of h0] obtain ret where
    eq: "formatTimings timings h0 =
           Inr (ret, h0 @ [sort (durations QUIC timings), sort (durations HTTP timings),
                           sort (durations WS timings)])"
    and st: "\<And>t. median (statistics_of t ret) = calculateMedian (sort (durations t timings))"
    by fastforce
  have "median (statistics_of t ret) = Some (sort (durations t timings) ! (length timings div 2))"
    for t
    using assms by (simp add: st calculateMedian_nonempty sort_Nil_iff durations_Nil_iff
        length_durations del: durations.simps)
  with eq show ?thesis by blast
qed

theorem median_upper_middle_witness:
  "[(40, 1, 5), (10, 1, 6), (30, 1, 7), (20, 1, 8)] \<noteq> ([]::timing list)
   \<and> (\<exists>ret h. formatTimings [(40, 1, 5), (10, 1, 6), (30, 1, 7), (20, 1, 8)] [] = Inr (ret, h)
         \<and> quicMedian ret = Some 30 \<and> httpMedian ret = Some 1 \<and> wsMedian ret = Some 7)"
proof -
  let ?ts = "[(40, 1, 5), (10, 1, 6), (30, 1, 7), (20, 1, 8)] :: timing list"
  have ne: "?ts \<noteq> []" by simp
  from median_upper_middle [OF ne, of "[]"] obtain ret h where
    eq: "formatTimings ?ts [] = Inr (ret, h)"
    and md: "\<And>t. median (statistics_of t ret) =
               Some (sort (durations t ?ts) ! (length ?ts div 2))"
    by blast
  from md [of QUIC] have "quicMedian ret = Some 30" by simp
  moreover from md [of HTTP] have "httpMedian ret = Some 1" by simp
  moreover from md [of WS] have "wsMedian ret = Some 7" by simp
  ultimately show ?thesis using eq by blast
qed

lemma calculateMean_zeros: "calculateMean [0, 0, 0] = Inr (Finite 0)"
  by (simp add: calculateMean_def num_of_int_def)

lemma calculateStdDev_zeros: "calculateStdDev [0, 0, 0] = Inr (Finite 0)"
  by (simp add: calculateStdDev_def calculateMean_zeros calculateVariance_def num_of_int_def)

text \<open>
  C8. The claim puts the mean between \<open>low\<close> and \<open>high\<close> for every sample. For three
  durations of 9007199254740990 ms the sum is rounded and the computed mean is
  9007199254740989, below \<open>low\<close>.
\<close>

theorem low_high_bracket_counterexample:
  "map_sum id (quicLow \<circ> fst)
     (formatTimings [(9007199254740990, 0, 0), (9007199254740990, 0, 0),
                     (9007199254740990, 0, 0)] []) = Inr (Some 9007199254740990)
   \<and> map_sum id (quicMean \<circ> fst)
     (formatTimings [(9007199254740990, 0, 0), (9007199254740990, 0, 0),
                     (9007199254740990, 0, 0)] []) = Inr (Finite 9007199254740989)"
  by (simp add: formatTimings_def Array_map_alloc_def sort_nums_def deref_def
      sort_comparefn_def SortCompare_def calculateMean_big calculateStdDev_big
      calculateMean_zeros calculateStdDev_zeros calculateLow_def)

text \<open>
  C8, as the code has it. For a non-empty sample set and each transport, the sorted
  durations are as many as the sample set has triples, \<open>low\<close> is their first and \<open>high\<close>
  their last element, and the median lies in the closed interval from \<open>low\<close> to \<open>high\<close>.
  When the durations of the transport times their count stay within \<open>2 ^ 53\<close> (so that the
  sum is exact), the mean is the exact arithmetic mean rounded to a double and lies in that
  interval too.
\<close>

theorem low_high_bracket:
  assumes "timings \<noteq> []"
  shows "\<exists>ret h. formatTimings timings h0 = Inr (ret, h)
           \<and> (\<forall>t. \<exists>lo md hi.
                  length (sortedDurations (statistics_of t ret)) = length timings
                \<and> low (statistics_of t ret) = Some lo
                \<and> median (statistics_of t ret) = Some md
                \<and> high (statistics_of t ret) = Some hi
                \<and> lo = sortedDurations (statistics_of t ret) ! 0
                \<and> hi = sortedDurations (statistics_of t ret)
                          ! (length (sortedDurations (statistics_of t ret)) - 1)
                \<and> lo \<le> md \<and> md \<le> hi
                \<and> ((\<forall>x\<in>set (durations t timings). \<bar>x\<bar> * int (length timings) \<le> 2 ^ 53) \<longrightarrow>
                     mean (statistics_of t ret) =
                       Finite (round_real (arithmetic_mean (sortedDurations (statistics_of t ret))))
                   \<and> real_of_int lo
                       \<le> round_real (arithmetic_mean (sortedDurations (statistics_of t ret)))
                   \<and> round_real (arithmetic_mean (sortedDurations (statistics_of t ret)))
                       \<le> real_of_int hi))"
proof -
  from formatTimings_nonempty [OF assms, of h0] obtain ret where
    eq: "formatTimings timings h0 =
           Inr (ret, h0 @ [sort (durations QUIC timings), sort (durations HTTP timings),
                           sort (durations WS timings)])"
    and st: "\<And>t. sortedDurations (statistics_of t ret) = sort (durations t timings)"
            "\<And>t. calculateMean (sort (durations t timings)) = Inr (mean (statistics_of t ret))"
            "\<And>t. median (statistics_of t ret) = calculateMedian (sort (durations t timings))"
            "\<And>t. high (statistics_of t ret) = calculateHigh (sort (durations t timings))"
            "\<And>t. low (statistics_of t ret) = calculateLow (sort (durations t timings))"
    by blast
  have "\<exists>lo md hi.
          length (sortedDurations (statistics_of t ret)) = length timings
        \<and> low (statistics_of t ret) = Some lo
        \<and> median (statistics_of t ret) = Some md
        \<and> high (statistics_of t ret) = Some hi
        \<and> lo = sortedDurations (statistics_of t ret) ! 0
        \<and> hi = sortedDurations (statistics_of t ret)
                  ! (length (sortedDurations (statistics_of t ret)) - 1)
        \<and> lo \<le> md \<and> md \<le> hi
        \<and> ((\<forall>x\<in>set (durations t timings). \<bar>x\<bar> * int (length timings) \<le> 2 ^ 53) \<longrightarrow>
             mean (statistics_of t ret) =
               Finite (round_real (arithmetic_mean (sortedDurations (statistics_of t ret))))
           \<and> real_of_int lo
               \<le> round_real (arithmetic_mean (sortedDurations (statistics_of t ret)))
           \<and> round_real (arithmetic_mean (sortedDurations (statistics_of t ret)))
               \<le> real_of_int hi)" for t
  proof -
    let ?xs = "sort (durations t timings)"
    have ne: "?xs \<noteq> []" using assms by (simp add: sort_Nil_iff durations_Nil_iff)
    have srt: "sorted ?xs" by simp
    have len: "length ?xs = length timings" by (simp add: length_durations)
    have "0 < length timings" using assms by simp
    then have mid: "length ?xs div 2 < length ?xs" by (simp add: length_durations)
    have pos: "0 < length ?xs" by (rule length_greater_0_conv [THEN iffD2, OF ne])
    have lo_mem: "?xs ! 0 \<in> set ?xs" by (rule nth_mem [OF pos])
    from pos have "length ?xs - 1 < length ?xs" by (rule diff_less [OF zero_less_one])
    then have hi_mem: "?xs ! (length ?xs - 1) \<in> set ?xs" by (rule nth_mem)
    have lo_le: "\<forall>x\<in>set ?xs. ?xs ! 0 \<le> x"
      using srt by (auto simp: in_set_conv_nth sorted_iff_nth_mono simp del: set_sort length_sort)
    have hi_ge: "\<forall>x\<in>set ?xs. x \<le> ?xs ! (length ?xs - 1)"
      using srt
      by (auto simp: in_set_conv_nth sorted_iff_nth_mono simp del: set_sort length_sort)
    have meanpart: "mean (statistics_of t ret) = Finite (round_real (arithmetic_mean ?xs))
           \<and> real_of_int (?xs ! 0) \<le> round_real (arithmetic_mean ?xs)
           \<and> round_real (arithmetic_mean ?xs) \<le> real_of_int (?xs ! (length ?xs - 1))"
      if b: "\<forall>x\<in>set (durations t timings). \<bar>x\<bar> * int (length timings) \<le> 2 ^ 53"
    proof -
      from b have b': "\<forall>x\<in>set ?xs. \<bar>x\<bar> * int (length ?xs) \<le> 2 ^ 53"
        by (simp add: length_durations)
      from calculateMean_bracket [OF ne b' lo_mem hi_mem lo_le hi_ge] st(2) [of t]
      show ?thesis by simp
    qed
    show ?thesis
      unfolding st(1) st(3) st(4) st(5)
      using sorted_between_ends [OF srt mid] meanpart len
      by (simp add: calculateLow_nonempty [OF ne] calculateHigh_nonempty [OF ne]
          calculateMedian_nonempty [OF ne] del: durations.simps)
  qed
  with eq show ?thesis by blast
qed

theorem low_high_bracket_witness:
  "[(40, 1, 5), (10, 1, 6), (30, 1, 7), (20, 1, 8)] \<noteq> ([]::timing list)
   \<and> durations QUIC [(40, 1, 5), (10, 1, 6), (30, 1, 7), (20, 1, 8)] = [40, 10, 30, 20]
   \<and> \<bar>40::int\<bar> * int (length ([(40, 1, 5), (10, 1, 6), (30, 1, 7), (20, 1, 8)] :: timing list))
         \<le> 2 ^ 53
   \<and> (\<exists>ret h. formatTimings [(40, 1, 5), (10, 1, 6), (30, 1, 7), (20, 1, 8)] [] = Inr (ret, h)
         \<and> quicLow ret = Some 10 \<and> quicHigh ret = Some 40
         \<and> quicResponses ret = [10, 20, 30, 40]
         \<and> (\<exists>m. quicMean ret = Finite m \<and> 10 \<le> m \<and> m \<le> 40))"
proof -
  let ?ts = "[(40, 1, 5), (10, 1, 6), (30, 1, 7), (20, 1, 8)] :: timing list"
  have ne: "?ts \<noteq> []" by simp
  have bd: "\<forall>x\<in>set (durations QUIC ?ts). \<bar>x\<bar> * int (length ?ts) \<le> 2 ^ 53" by simp
  from low_high_bracket [OF ne, of "[]"] obtain ret h where
    eq: "formatTimings ?ts [] = Inr (ret, h)"
    and br: "\<And>t. \<exists>lo md hi.
                  length (sortedDurations (statistics_of t ret)) = length ?ts
                \<and> low (statistics_of t ret) = Some lo
                \<and> median (statistics_of t ret) = Some md
                \<and> high (statistics_of t ret) = Some hi
                \<and> lo = sortedDurations (statistics_of t ret) ! 0
                \<and> hi = sortedDurations (statistics_of t ret)
                          ! (length (sortedDurations (statistics_of t ret)) - 1)
                \<and> lo \<le> md \<and> md \<le> hi
                \<and> ((\<forall>x\<in>set (durations t ?ts). \<bar>x\<bar> * int (length ?ts) \<le> 2 ^ 53) \<longrightarrow>
                     mean (statistics_of t ret) =
                       Finite (round_real (arithmetic_mean (sortedDurations (statistics_of t ret))))
                   \<and> real_of_int lo
                       \<le> round_real (arithmetic_mean (sortedDurations (statistics_of t ret)))
                   \<and> round_real (arithmetic_mean (sortedDurations (statistics_of t ret)))
                       \<le> real_of_int hi)"
    by blast
  from formatTimings_nonempty [OF ne, of "[]"] obtain ret' where
    e': "formatTimings ?ts [] =
           Inr (ret', [] @ [sort (durations QUIC ?ts), sort (durations HTTP ?ts),
                            sort (durations WS ?ts)])"
    and s': "\<And>t. sortedDurations (statistics_of t ret') = sort (durations t ?ts)"
    by blast
  from e' eq have "ret' = ret" by simp
  with s' [of QUIC] have rs: "quicResponses ret = [10, 20, 30, 40]" by simp
  from br [of QUIC] bd rs have
    "quicLow ret = Some 10 \<and> quicHigh ret = Some 40
     \<and> (\<exists>m. quicMean ret = Finite m \<and> 10 \<le> m \<and> m \<le> 40)"
    by auto
  with eq rs have "\<exists>ret h. formatTimings ?ts [] = Inr (ret, h)
         \<and> quicLow ret = Some 10 \<and> quicHigh ret = Some 40
         \<and> quicResponses ret = [10, 20, 30, 40]
         \<and> (\<exists>m. quicMean ret = Finite m \<and> 10 \<le> m \<and> m \<le> 40)"
    by blast
  then show ?thesis by simp
qed

text \<open>
  C5. \<open>_sort\<close> returns the reference it was given; the array behind it is then sorted
  non-decreasingly, is a permutation of what it held before, and elements that compare
  equal keep their relative order. The same holds for the sorted durations of each
  transport in the report, against the column projected from the sample set. (For a
  comparator applied to a key, \<open>Array_sort_stable\<close> is the stability of the built-in sort
  where ties can be told apart.)
\<close>

theorem sort_nums_sorted_permutation:
  "(nums < length h \<longrightarrow>
      fst (sort_nums nums h) = nums
    \<and> sorted (deref (snd (sort_nums nums h)) nums)
    \<and> mset (deref (snd (sort_nums nums h)) nums) = mset (deref h nums)
    \<and> (\<forall>k. filter (\<lambda>y. y = k) (deref (snd (sort_nums nums h)) nums)
             = filter (\<lambda>y. y = k) (deref h nums)))
   \<and> (timings \<noteq> [] \<longrightarrow>
        (\<exists>ret h'. formatTimings timings h0 = Inr (ret, h')
           \<and> (\<forall>t. sorted (sortedDurations (statistics_of t ret))
                \<and> mset (sortedDurations (statistics_of t ret)) = mset (durations t timings)
                \<and> (\<forall>k. filter (\<lambda>y. y = k) (sortedDurations (statistics_of t ret))
                         = filter (\<lambda>y. y = k) (durations t timings)))))"
proof (intro conjI impI)
  assume v: "nums < length h"
  show "fst (sort_nums nums h) = nums"
    by (simp add: sort_nums_def)
  have content: "deref (snd (sort_nums nums h)) nums = Array_sort sort_comparefn (deref h nums)"
    using v by (simp add: sort_nums_def deref_def)
  show "sorted (deref (snd (sort_nums nums h)) nums)"
    by (simp add: content Array_sort_nums)
  show "mset (deref (snd (sort_nums nums h)) nums) = mset (deref h nums)"
    by (simp add: content Array_sort_nums)
  show "\<forall>k. filter (\<lambda>y. y = k) (deref (snd (sort_nums nums h)) nums)
             = filter (\<lambda>y. y = k) (deref h nums)"
    using Array_sort_stable [of "\<lambda>x. x" _ "deref h nums"] by (simp add: content)
next
  assume ne: "timings \<noteq> []"
  from formatTimings_nonempty [OF ne, of h0] obtain ret where
    eq: "formatTimings timings h0 =
           Inr (ret, h0 @ [sort (durations QUIC timings), sort (durations HTTP timings),
                           sort (durations WS timings)])"
    and st: "\<And>t. sortedDurations (statistics_of t ret) = sort (durations t timings)"
    by fastforce
  have "sorted (sortedDurations (statistics_of t ret))
      \<and> mset (sortedDurations (statistics_of t ret)) = mset (durations t timings)
      \<and> (\<forall>k. filter (\<lambda>y. y = k) (sortedDurations (statistics_of t ret))
               = filter (\<lambda>y. y = k) (durations t timings))" for t
    using sort_key_stable [of "\<lambda>x. x" _ "durations t timings"]
    by (simp add: st del: durations.simps)
  with eq show "\<exists>ret h'. formatTimings timings h0 = Inr (ret, h')
           \<and> (\<forall>t. sorted (sortedDurations (statistics_of t ret))
                \<and> mset (sortedDurations (statistics_of t ret)) = mset (durations t timings)
                \<and> (\<forall>k. filter (\<lambda>y. y = k) (sortedDurations (statistics_of t ret))
                         = filter (\<lambda>y. y = k) (durations t timings)))"
    by blast
qed

theorem sort_nums_sorted_permutation_witness:
  "0 < length [[3, 1, 2, 1 :: int]]
   \<and> sort_nums 0 [[3, 1, 2, 1]] = (0, [[1, 1, 2, 3]])
   \<and> [(40, 1, 5), (10, 1, 6)] \<noteq> ([]::timing list)
   \<and> (\<exists>ret h'. formatTimings [(40, 1, 5), (10, 1, 6)] [] = Inr (ret, h')
         \<and> sorted (quicResponses ret) \<and> mset (quicResponses ret) = mset [40, 10])"
proof -
  let ?ts = "[(40, 1, 5), (10, 1, 6)] :: timing list"
  have a: "sort_nums 0 [[3, 1, 2, 1]] = (0, [[1, 1, 2, 3]])"
    by (simp add: sort_nums_def sort_comparefn_def SortCompare_def)
  have ne: "?ts \<noteq> []" by simp
  have v: "0 < length [[3, 1, 2, 1 :: int]]" by simp
  note inst = sort_nums_sorted_permutation [of 0 "[[3, 1, 2, 1]]" ?ts "[]"]
  from inst ne obtain ret h' where
    eq: "formatTimings ?ts [] = Inr (ret, h')"
    and p: "\<And>t. sorted (sortedDurations (statistics_of t ret))
                \<and> mset (sortedDurations (statistics_of t ret)) = mset (durations t ?ts)"
    by blast
  from p [of QUIC] have "sorted (quicResponses ret) \<and> mset (quicResponses ret) = mset [40, 10]"
    by simp
  with eq a v ne show ?thesis by blast
qed

lemma main_loop_done:
  "\<not> p < START_PORT + NUM_SPINUPS \<Longrightarrow>
   main_loop w isClient START_PORT NUM_SPINUPS p responsePromises s = (responsePromises, s)"
  by (simp add: main_loop.simps)

text \<open>
  C9. The mean of an empty sequence throws a TypeError, and so does the standard deviation;
  median, high and low of an empty sequence are \<open>undefined\<close> and its variance is \<open>NaN\<close>:
  no statistic has a value on an empty sample. \<open>_formatTimings\<close> on an empty sample set
  throws instead of printing a report, and a client run whose loop launches no instance
  (the loop starts at 8000 and needs \<open>8000 < START_PORT + NUM_SPINUPS\<close>) ends with that
  exception.
\<close>

theorem empty_sample_throws:
  "calculateMean [] = Inl TypeError
   \<and> calculateStdDev [] = Inl TypeError
   \<and> calculateMedian [] = None
   \<and> calculateHigh [] = None
   \<and> calculateLow [] = None
   \<and> calculateVariance mu [] = NaN
   \<and> formatTimings [] h = Inl TypeError
   \<and> (START_PORT + NUM_SPINUPS \<le> 8000 \<longrightarrow>
        main w True START_PORT NUM_SPINUPS s = (Threw TypeError, s))"
proof -
  have ft: "formatTimings [] h' = Inl TypeError" for h'
    by (simp add: formatTimings_def Array_map_alloc_def sort_nums_def deref_def calculateMean_def)
  have "main w True START_PORT NUM_SPINUPS s = (Threw TypeError, s)"
    if "START_PORT + NUM_SPINUPS \<le> 8000"
    using that by (simp add: main_def main_loop_done ft)
  then show ?thesis
    by (simp add: ft calculateMean_def calculateStdDev_def calculateMedian_def calculateHigh_def
        calculateLow_def calculateVariance_def)
qed

theorem empty_sample_throws_witness:
  "(7000::int) + 2 \<le> 8000
   \<and> main echo_world True 7000 2 initial_state = (Threw TypeError, initial_state)"
  using empty_sample_throws [where START_PORT = 7000 and NUM_SPINUPS = 2 and w = echo_world
      and s = initial_state] by simp

text \<open>
  C10. The claim ends with the original order being preserved nowhere. \<open>_formatTimings\<close>
  only reads the sample set (the three \<open>map\<close> calls build fresh arrays, and \<open>_sort\<close> is
  applied to these only): with the sample set (40, 2, 5), (10, 1, 6) the store ends with
  the sorted columns, and the sample set still gives the QUIC durations in launch order,
  40 before 10.
\<close>

theorem sort_in_place_counterexample:
  "map_sum id snd (formatTimings [(40, 2, 5), (10, 1, 6)] [[7]]) =
     Inr [[7], [10, 40], [1, 2], [5, 6]]
   \<and> durations QUIC [(40, 2, 5), (10, 1, 6)] = [40, 10]
   \<and> durations HTTP [(40, 2, 5), (10, 1, 6)] = [2, 1]"
proof -
  have "[(40, 2, 5), (10, 1, 6)] \<noteq> ([]::timing list)" by simp
  from formatTimings_nonempty [OF this, of "[[7]]"] obtain ret where
    "formatTimings [(40, 2, 5), (10, 1, 6)] [[7]] =
       Inr (ret, [[7]] @ [sort (durations QUIC [(40, 2, 5), (10, 1, 6)]),
                          sort (durations HTTP [(40, 2, 5), (10, 1, 6)]),
                          sort (durations WS [(40, 2, 5), (10, 1, 6)])])"
    by blast
  then show ?thesis by simp
qed

text \<open>
  C10, as the code has it. \<open>_sort\<close> sorts the array in place and returns the same
  reference: the store is changed at that reference only, to the sorted content.
  \<open>_formatTimings\<close> allocates three arrays, the columns it projects from the sample set, and
  sorts each through its own reference: in the store it leaves, these three hold the sorted
  columns and everything it was given is unchanged, so no array it made keeps a column in
  the order it was projected. The sample set itself is never written and keeps the launch
  order.
\<close>

theorem sort_in_place:
  "(nums < length h \<longrightarrow> sort_nums nums h = (nums, h[nums := sort (h ! nums)]))
   \<and> (timings \<noteq> [] \<longrightarrow>
        (\<exists>ret. formatTimings timings h0 =
                 Inr (ret, h0 @ [sort (durations QUIC timings), sort (durations HTTP timings),
                                 sort (durations WS timings)])
             \<and> (\<forall>t. sortedDurations (statistics_of t ret) = sort (durations t timings))))"
proof (intro conjI impI)
  assume "nums < length h"
  then show "sort_nums nums h = (nums, h[nums := sort (h ! nums)])"
    by (rule sort_nums_valid)
next
  assume ne: "timings \<noteq> []"
  from formatTimings_nonempty [OF ne, of h0] obtain ret where
    eq: "formatTimings timings h0 =
           Inr (ret, h0 @ [sort (durations QUIC timings), sort (durations HTTP timings),
                           sort (durations WS timings)])"
    and st: "\<And>t. sortedDurations (statistics_of t ret) = sort (durations t timings)"
    by fastforce
  then show "\<exists>ret. formatTimings timings h0 =
                 Inr (ret, h0 @ [sort (durations QUIC timings), sort (durations HTTP timings),
                                 sort (durations WS timings)])
             \<and> (\<forall>t. sortedDurations (statistics_of t ret) = sort (durations t timings))"
    by blast
qed

theorem sort_in_place_witness:
  "1 < length [[7], [3, 1, 2 :: int]]
   \<and> sort_nums 1 [[7], [3, 1, 2]] = (1, [[7], [1, 2, 3]])
   \<and> [(40, 2, 5), (10, 1, 6)] \<noteq> ([]::timing list)
   \<and> (\<exists>ret. formatTimings [(40, 2, 5), (10, 1, 6)] [[7]] =
               Inr (ret, [[7], [10, 40], [1, 2], [5, 6]])
          \<and> quicResponses ret = [10, 40])"
proof -
  let ?ts = "[(40, 2, 5), (10, 1, 6)] :: timing list"
  have ne: "?ts \<noteq> []" by simp
  have v: "1 < length [[7], [3, 1, 2 :: int]]" by simp
  note inst = sort_in_place [of 1 "[[7], [3, 1, 2]]" ?ts "[[7]]"]
  from inst v have a: "sort_nums 1 [[7], [3, 1, 2]] = (1, [[7], [1, 2, 3]])" by simp
  from inst ne obtain ret where
    eq: "formatTimings ?ts [[7]] =
           Inr (ret, [[7]] @ [sort (durations QUIC ?ts), sort (durations HTTP ?ts),
                              sort (durations WS ?ts)])"
    and p: "\<And>t. sortedDurations (statistics_of t ret) = sort (durations t ?ts)"
    by blast
  from eq have eq': "formatTimings ?ts [[7]] = Inr (ret, [[7], [10, 40], [1, 2], [5, 6]])"
    by simp
  from p [of QUIC] have "quicResponses ret = [10, 40]" by simp
  with eq' a v ne show ?thesis by blast
qed


section \<open>Properties of the orchestration\<close>

subsection \<open>The loop of \<open>main\<close> in closed form\<close>

lemma runAsClient_eq:
  "runAsClient w quicPort httpPort wsPort s =
     (Promise_all3 (settle quic_onData w QUIC quicPort
                      (readFileSync w (reads s))
                      (readFileSync w (reads s)))
                   (settle http_callback w HTTP httpPort
                      (readFileSync w (reads s))
                      (readFileSync w (reads s)))
                   (settle ws_onMessage w WS wsPort
                      (readFileSync w (reads s))
                      (readFileSync w (reads s))),
      s\<lparr>reads := reads s + 1,
        effects := effects s @ [ReadFile (readFileSync w (reads s)),
                                QuicSend quicPort (readFileSync w (reads s)),
                                HttpPost httpPort (readFileSync w (reads s)),
                                WsOpen wsPort,
                                WsOnOpen [WsSend (readFileSync w (reads s))]]\<rparr>)"
  by (simp add: runAsClient_def emit_def Let_def ws_onOpen_def ws_sent_def)

lemma main_loop_client_step:
  "p < START_PORT + NUM_SPINUPS \<Longrightarrow>
   main_loop w True START_PORT NUM_SPINUPS p responsePromises s =
   main_loop w True START_PORT NUM_SPINUPS (p + 1)
     (responsePromises @ [fst (runAsClient w p (p + NUM_SPINUPS) (p + (NUM_SPINUPS * 2)) s)])
     (sleep 1 (snd (runAsClient w p (p + NUM_SPINUPS) (p + (NUM_SPINUPS * 2)) s)))"
  by (subst main_loop.simps) (simp add: split_beta)

lemma main_loop_server_step:
  "p < START_PORT + NUM_SPINUPS \<Longrightarrow>
   main_loop w False START_PORT NUM_SPINUPS p responsePromises s =
   main_loop w False START_PORT NUM_SPINUPS (p + 1) responsePromises
     (runAsServer p (p + NUM_SPINUPS) (p + (NUM_SPINUPS * 2)) s)"
  by (subst main_loop.simps) simp

lemma main_loop_server:
  "main_loop w False START_PORT NUM_SPINUPS p responsePromises s =
     (responsePromises,
      s\<lparr>effects := effects s @
         concat (map (\<lambda>q. [QuicListen q, HttpListen (q + NUM_SPINUPS),
                            WsListen (q + (NUM_SPINUPS * 2))])
                  [p..START_PORT + NUM_SPINUPS - 1])\<rparr>)"
proof (induction "nat (START_PORT + NUM_SPINUPS - p)" arbitrary: p s)
  case 0
  then have "\<not> p < START_PORT + NUM_SPINUPS" by simp
  then show ?case by (simp add: main_loop_done)
next
  case (Suc n)
  then have lt: "p < START_PORT + NUM_SPINUPS" by simp
  from Suc.hyps(2) have n: "n = nat (START_PORT + NUM_SPINUPS - (p + 1))" by simp
  have up: "[p..START_PORT + NUM_SPINUPS - 1] = p # [p + 1..START_PORT + NUM_SPINUPS - 1]"
    using lt by (simp add: upto_rec1)
  show ?case
    by (simp add: main_loop_server_step [OF lt] Suc.hyps(1) [OF n] up runAsServer_def emit_def)
qed

lemma main_loop_client:
  "main_loop w True START_PORT NUM_SPINUPS p responsePromises s =
     (responsePromises @
        map (\<lambda>q. Promise_all3
                   (settle quic_onData w QUIC q
                      (readFileSync w (reads s + nat (q - p)))
                      (readFileSync w (reads s + nat (q - p))))
                   (settle http_callback w HTTP (q + NUM_SPINUPS)
                      (readFileSync w (reads s + nat (q - p)))
                      (readFileSync w (reads s + nat (q - p))))
                   (settle ws_onMessage w WS (q + (NUM_SPINUPS * 2))
                      (readFileSync w (reads s + nat (q - p)))
                      (readFileSync w (reads s + nat (q - p)))))
          [p..START_PORT + NUM_SPINUPS - 1],
      s\<lparr>reads := reads s + nat (START_PORT + NUM_SPINUPS - p),
        effects := effects s @
          concat (map (\<lambda>q. [ReadFile (readFileSync w (reads s + nat (q - p))),
                             QuicSend q (readFileSync w (reads s + nat (q - p))),
                             HttpPost (q + NUM_SPINUPS) (readFileSync w (reads s + nat (q - p))),
                             WsOpen (q + (NUM_SPINUPS * 2)),
                             WsOnOpen [WsSend (readFileSync w (reads s + nat (q - p)))],
                             Sleep 1])
                   [p..START_PORT + NUM_SPINUPS - 1])\<rparr>)"
proof (induction "nat (START_PORT + NUM_SPINUPS - p)" arbitrary: p responsePromises s)
  case 0
  then have "\<not> p < START_PORT + NUM_SPINUPS" by simp
  then show ?case by (simp add: main_loop_done)
next
  case (Suc n)
  then have lt: "p < START_PORT + NUM_SPINUPS" by simp
  from Suc.hyps(2) have n: "n = nat (START_PORT + NUM_SPINUPS - (p + 1))" by simp
  have up: "[p..START_PORT + NUM_SPINUPS - 1] = p # [p + 1..START_PORT + NUM_SPINUPS - 1]"
    using lt by (simp add: upto_rec1)
  have idx: "Suc (reads s + nat (q - (p + 1))) = reads s + nat (q - p)" if "p + 1 \<le> q" for q
    using that by linarith
  have cnt: "Suc (reads s + nat (START_PORT + NUM_SPINUPS - (p + 1))) =
             reads s + nat (START_PORT + NUM_SPINUPS - p)"
    using lt by linarith
  have shift: "map (\<lambda>q. f (Suc (reads s + nat (q - (p + 1)))) q)
                 [p + 1..START_PORT + NUM_SPINUPS - 1] =
               map (\<lambda>q. f (reads s + nat (q - p)) q) [p + 1..START_PORT + NUM_SPINUPS - 1]"
    for f :: "nat \<Rightarrow> int \<Rightarrow> 'b"
    by (rule map_cong) (simp_all add: idx)
  note e1 = shift [of "\<lambda>k q. [ReadFile (readFileSync w k), QuicSend q (readFileSync w k),
                            HttpPost (q + NUM_SPINUPS) (readFileSync w k),
                            WsOpen (q + (NUM_SPINUPS * 2)),
                            WsOnOpen [WsSend (readFileSync w k)], Sleep (Suc 0)]"]
  note e2 = shift [of "\<lambda>k q. Promise_all3 (settle quic_onData w QUIC q (readFileSync w k) (readFileSync w k))
                   (settle http_callback w HTTP (q + NUM_SPINUPS) (readFileSync w k) (readFileSync w k))
                   (settle ws_onMessage w WS (q + (NUM_SPINUPS * 2)) (readFileSync w k) (readFileSync w k))"]
  show ?case
    unfolding main_loop_client_step [OF lt] Suc.hyps(1) [OF n] up
    by (simp add: runAsClient_eq sleep_def emit_def cnt e1 e2)
qed


lemma Promise_all_rejected:
  "\<exists>reason. Rejected reason \<in> set ps \<Longrightarrow> \<exists>reason. Promise_all ps = Rejected reason"
proof (induction ps)
  case Nil
  then show ?case by simp
next
  case (Cons p ps)
  show ?case
  proof (cases "\<exists>reason. Rejected reason \<in> set ps")
    case True
    with Cons.IH obtain r where "Promise_all ps = Rejected r" by blast
    then show ?thesis by (cases p) simp_all
  next
    case False
    with Cons.prems obtain r where "p = Rejected r" by auto
    then show ?thesis by simp
  qed
qed

lemma Promise_all_fulfilled: "Promise_all (map Fulfilled vs) = Fulfilled vs"
  by (induction vs) simp_all

lemma Promise_all3_rejected:
  "(\<exists>reason. a = Rejected reason) \<or> (\<exists>reason. b = Rejected reason) \<or> (\<exists>reason. c = Rejected reason)
   \<Longrightarrow> \<exists>reason. Promise_all3 a b c = Rejected reason"
proof -
  assume "(\<exists>reason. a = Rejected reason) \<or> (\<exists>reason. b = Rejected reason)
          \<or> (\<exists>reason. c = Rejected reason)"
  then have "\<exists>reason. Rejected reason \<in> set [a, b, c]" by auto
  then obtain r where "Promise_all [a, b, c] = Rejected r"
    using Promise_all_rejected by blast
  then show ?thesis by (simp add: Promise_all3_def)
qed

lemma Promise_all3_fulfilled:
  "Promise_all3 (Fulfilled a) (Fulfilled b) (Fulfilled c) = Fulfilled (a, b, c)"
  by (simp add: Promise_all3_def)

lemma settle_mismatch:
  assumes "delivery w t port sent = Some (resp, now)" and "resp \<noteq> data"
  shows "settle quic_onData w t port sent data = Rejected ''QUIC received wrong response''"
    and "settle http_callback w t port sent data = Rejected ''HTTP received wrong response''"
    and "settle ws_onMessage w t port sent data = Rejected ''WS received wrong response''"
  using assms
  by (simp_all add: settle_def quic_onData_def http_callback_def ws_onMessage_def
      reject_def resolve_def)

lemma settle_echo:
  assumes "delivery w t port sent = Some (data, now)"
  shows "settle quic_onData w t port sent data = Fulfilled (now - getTime_start w t port)"
    and "settle http_callback w t port sent data = Fulfilled (now - getTime_start w t port)"
    and "settle ws_onMessage w t port sent data = Fulfilled (now - getTime_start w t port)"
  using assms
  by (simp_all add: settle_def quic_onData_def http_callback_def ws_onMessage_def
      reject_def resolve_def)

text \<open>
  C6. A reply that differs from the payload makes the data callback of each transport
  reject its pending promise with the transport's "received wrong response" reason; the
  \<open>resolve\<close> that follows does not change the rejected promise, so the measured duration
  is not its value, and the callback sends nothing again. In a client run, one such reply
  for any launched instance and any transport rejects the joined promise: \<open>main\<close> ends
  rejected, \<open>_formatTimings\<close> does not run and no report is printed.
\<close>

theorem mismatch_rejects:
  "(resp \<noteq> data \<longrightarrow>
      quic_onData data start resp now Pending = (Rejected ''QUIC received wrong response'', [])
    \<and> http_callback data start resp now Pending = (Rejected ''HTTP received wrong response'', [])
    \<and> ws_onMessage data start resp now Pending
        = (Rejected ''WS received wrong response'', [WsClose]))
   \<and> (8000 \<le> q \<and> q < START_PORT + NUM_SPINUPS
       \<and> delivery w t (port_of t NUM_SPINUPS q) (readFileSync w (reads s + nat (q - 8000)))
           = Some (reply, tm)
       \<and> reply \<noteq> readFileSync w (reads s + nat (q - 8000))
      \<longrightarrow> (\<exists>reason. main w True START_PORT NUM_SPINUPS s =
                      (RejectedWith reason,
                       snd (main_loop w True START_PORT NUM_SPINUPS 8000 [] s))))"
proof (intro conjI impI)
  assume "resp \<noteq> data"
  then show "quic_onData data start resp now Pending
               = (Rejected ''QUIC received wrong response'', [])"
    and "http_callback data start resp now Pending
               = (Rejected ''HTTP received wrong response'', [])"
    and "ws_onMessage data start resp now Pending
               = (Rejected ''WS received wrong response'', [WsClose])"
    by (simp_all add: quic_onData_def http_callback_def ws_onMessage_def reject_def resolve_def)
next
  assume a: "8000 \<le> q \<and> q < START_PORT + NUM_SPINUPS
       \<and> delivery w t (port_of t NUM_SPINUPS q) (readFileSync w (reads s + nat (q - 8000)))
           = Some (reply, tm)
       \<and> reply \<noteq> readFileSync w (reads s + nat (q - 8000))"
  let ?d = "readFileSync w (reads s + nat (q - 8000))"
  let ?P = "\<lambda>q. Promise_all3
                   (settle quic_onData w QUIC q
                      (readFileSync w (reads s + nat (q - 8000)))
                      (readFileSync w (reads s + nat (q - 8000))))
                   (settle http_callback w HTTP (q + NUM_SPINUPS)
                      (readFileSync w (reads s + nat (q - 8000)))
                      (readFileSync w (reads s + nat (q - 8000))))
                   (settle ws_onMessage w WS (q + (NUM_SPINUPS * 2))
                      (readFileSync w (reads s + nat (q - 8000)))
                      (readFileSync w (reads s + nat (q - 8000))))"
  from a have del: "delivery w t (port_of t NUM_SPINUPS q) ?d = Some (reply, tm)"
    and ne: "reply \<noteq> ?d" by simp_all
  have "\<exists>reason. ?P q = Rejected reason"
  proof (rule Promise_all3_rejected, cases t)
    case QUIC
    with del ne show "(\<exists>reason. settle quic_onData w QUIC q ?d ?d = Rejected reason)
        \<or> (\<exists>reason. settle http_callback w HTTP (q + NUM_SPINUPS) ?d ?d = Rejected reason)
        \<or> (\<exists>reason. settle ws_onMessage w WS (q + (NUM_SPINUPS * 2)) ?d ?d = Rejected reason)"
      using settle_mismatch(1) [of w QUIC q ?d reply tm] by simp
  next
    case HTTP
    with del ne show "(\<exists>reason. settle quic_onData w QUIC q ?d ?d = Rejected reason)
        \<or> (\<exists>reason. settle http_callback w HTTP (q + NUM_SPINUPS) ?d ?d = Rejected reason)
        \<or> (\<exists>reason. settle ws_onMessage w WS (q + (NUM_SPINUPS * 2)) ?d ?d = Rejected reason)"
      using settle_mismatch(2) [of w HTTP "q + NUM_SPINUPS" ?d reply tm] by simp
  next
    case WS
    with del ne show "(\<exists>reason. settle quic_onData w QUIC q ?d ?d = Rejected reason)
        \<or> (\<exists>reason. settle http_callback w HTTP (q + NUM_SPINUPS) ?d ?d = Rejected reason)
        \<or> (\<exists>reason. settle ws_onMessage w WS (q + (NUM_SPINUPS * 2)) ?d ?d = Rejected reason)"
      using settle_mismatch(3) [of w WS "q + (NUM_SPINUPS * 2)" ?d reply tm] by simp
  qed
  then obtain r where r: "?P q = Rejected r" by blast
  from a have "q \<in> set [8000..START_PORT + NUM_SPINUPS - 1]" by simp
  then have "?P q \<in> set (map ?P [8000..START_PORT + NUM_SPINUPS - 1])"
    unfolding set_map by (intro image_eqI [where x = q] refl)
  with r have "\<exists>reason. Rejected reason \<in> set (map ?P [8000..START_PORT + NUM_SPINUPS - 1])"
    by metis
  then obtain r' where "Promise_all (map ?P [8000..START_PORT + NUM_SPINUPS - 1]) = Rejected r'"
    using Promise_all_rejected by blast
  then have "main w True START_PORT NUM_SPINUPS s =
               (RejectedWith r', snd (main_loop w True START_PORT NUM_SPINUPS 8000 [] s))"
    by (simp add: main_def main_loop_client)
  then show "\<exists>reason. main w True START_PORT NUM_SPINUPS s =
                      (RejectedWith reason,
                       snd (main_loop w True START_PORT NUM_SPINUPS 8000 [] s))"
    by blast
qed


theorem mismatch_rejects_witness:
  "''pong'' \<noteq> ''ping''
   \<and> quic_onData ''ping'' 100 ''pong'' 103 Pending
       = (Rejected ''QUIC received wrong response'', [])
   \<and> (8000::int) \<le> 8000 \<and> (8000::int) < 8000 + 1
   \<and> delivery garbling_world QUIC (port_of QUIC 1 8000)
        (readFileSync garbling_world (reads initial_state + nat (8000 - 8000)))
       = Some (''pong'', 103)
   \<and> (\<exists>reason. main garbling_world True 8000 1 initial_state =
         (RejectedWith reason, snd (main_loop garbling_world True 8000 1 8000 [] initial_state)))"
proof -
  have d: "delivery garbling_world QUIC (port_of QUIC 1 8000)
             (readFileSync garbling_world (reads initial_state + nat (8000 - 8000)))
           = Some (''pong'', 103)"
    by (simp add: garbling_world_def)
  have n: "''pong'' \<noteq> readFileSync garbling_world (reads initial_state + nat (8000 - 8000))"
    by (simp add: garbling_world_def)
  note inst = mismatch_rejects [where resp = "''pong''" and data = "''ping''" and start = 100
      and now = 103 and q = 8000 and START_PORT = 8000 and NUM_SPINUPS = 1
      and w = garbling_world and t = QUIC and s = initial_state and reply = "''pong''"
      and tm = 103]
  from inst d n show ?thesis by simp
qed

text \<open>
  C3. The claim says the payload is loaded once per process before any instance starts.
  The code reads the file in every \<open>runAsClient\<close> call. With two instances and a file
  that changes after the first read, the run reads twice, the second time after the first
  instance has dispatched, and the instances send different payloads on every transport.
\<close>

theorem payload_read_per_instance_counterexample:
  "reads (snd (main_loop changing_world True 8000 2 8000 [] initial_state)) = 2
   \<and> effects (snd (main_loop changing_world True 8000 2 8000 [] initial_state)) =
       [ReadFile ''ping'', QuicSend 8000 ''ping'', HttpPost 8002 ''ping'', WsOpen 8004,
        WsOnOpen [WsSend ''ping''], Sleep 1,
        ReadFile ''pong'', QuicSend 8001 ''pong'', HttpPost 8003 ''pong'', WsOpen 8005,
        WsOnOpen [WsSend ''pong''], Sleep 1]"
  by (simp add: main_loop.simps runAsClient_def emit_def sleep_def Let_def changing_world_def
      initial_state_def ws_onOpen_def ws_sent_def)

text \<open>
  C3, as the code has it. A client run reads the payload file once per launched instance,
  at the start of that instance's \<open>runAsClient\<close> call, after the dispatch and the sleep of
  the instances before it. The value an instance read is the one it hands to QUIC and to
  HTTP, the one its WebSocket \<open>open\<close> handler sends, and the one each of its three replies
  is compared with. If the file has the same content at every read, every instance sends
  that content.
\<close>

theorem payload_read_per_instance:
  "reads (snd (main_loop w True START_PORT NUM_SPINUPS 8000 [] s)) =
     reads s + length (fst (main_loop w True START_PORT NUM_SPINUPS 8000 [] s))
   \<and> effects (snd (main_loop w True START_PORT NUM_SPINUPS 8000 [] s)) =
       effects s @
       concat (map (\<lambda>q. [ReadFile (readFileSync w (reads s + nat (q - 8000))),
                          QuicSend q (readFileSync w (reads s + nat (q - 8000))),
                          HttpPost (q + NUM_SPINUPS) (readFileSync w (reads s + nat (q - 8000))),
                          WsOpen (q + (NUM_SPINUPS * 2)),
                          WsOnOpen [WsSend (readFileSync w (reads s + nat (q - 8000)))],
                          Sleep 1])
                [8000..START_PORT + NUM_SPINUPS - 1])
   \<and> fst (main_loop w True START_PORT NUM_SPINUPS 8000 [] s) =
       map (\<lambda>q. Promise_all3
                  (settle quic_onData w QUIC q
                     (readFileSync w (reads s + nat (q - 8000)))
                     (readFileSync w (reads s + nat (q - 8000))))
                  (settle http_callback w HTTP (q + NUM_SPINUPS)
                     (readFileSync w (reads s + nat (q - 8000)))
                     (readFileSync w (reads s + nat (q - 8000))))
                  (settle ws_onMessage w WS (q + (NUM_SPINUPS * 2))
                     (readFileSync w (reads s + nat (q - 8000)))
                     (readFileSync w (reads s + nat (q - 8000)))))
         [8000..START_PORT + NUM_SPINUPS - 1]
   \<and> ((\<forall>k. readFileSync w k = payload) \<longrightarrow>
        effects (snd (main_loop w True START_PORT NUM_SPINUPS 8000 [] s)) =
          effects s @
          concat (map (\<lambda>q. [ReadFile payload, QuicSend q payload,
                             HttpPost (q + NUM_SPINUPS) payload,
                             WsOpen (q + (NUM_SPINUPS * 2)), WsOnOpen [WsSend payload],
                             Sleep 1])
                   [8000..START_PORT + NUM_SPINUPS - 1]))"
  by (simp add: main_loop_client)

theorem payload_read_per_instance_witness:
  "(\<forall>k. readFileSync echo_world k = ''ping'')
   \<and> reads (snd (main_loop echo_world True 8000 2 8000 [] initial_state)) = 2
   \<and> effects (snd (main_loop echo_world True 8000 2 8000 [] initial_state)) =
       [ReadFile ''ping'', QuicSend 8000 ''ping'', HttpPost 8002 ''ping'', WsOpen 8004,
        WsOnOpen [WsSend ''ping''], Sleep 1,
        ReadFile ''ping'', QuicSend 8001 ''ping'', HttpPost 8003 ''ping'', WsOpen 8005,
        WsOnOpen [WsSend ''ping''], Sleep 1]"
proof -
  have c: "\<forall>k. readFileSync echo_world k = ''ping''" by (simp add: echo_world_def)
  have u: "[8000..8000 + 2 - 1] = [8000, 8001::int]" by (simp add: upto_rec1)
  note inst = payload_read_per_instance [where w = echo_world and START_PORT = 8000
      and NUM_SPINUPS = 2 and s = initial_state and payload = "''ping''"]
  from inst c have
    "effects (snd (main_loop echo_world True 8000 2 8000 [] initial_state)) =
       effects initial_state @
       concat (map (\<lambda>q. [ReadFile ''ping'', QuicSend q ''ping'', HttpPost (q + 2) ''ping'',
                          WsOpen (q + (2 * 2)), WsOnOpen [WsSend ''ping''], Sleep 1])
                [8000..8000 + 2 - 1])"
    by blast
  then have e: "effects (snd (main_loop echo_world True 8000 2 8000 [] initial_state)) =
       [ReadFile ''ping'', QuicSend 8000 ''ping'', HttpPost 8002 ''ping'', WsOpen 8004,
        WsOnOpen [WsSend ''ping''], Sleep 1,
        ReadFile ''ping'', QuicSend 8001 ''ping'', HttpPost 8003 ''ping'', WsOpen 8005,
        WsOnOpen [WsSend ''ping''], Sleep 1]"
    unfolding u by (simp add: initial_state_def)
  from inst have "reads (snd (main_loop echo_world True 8000 2 8000 [] initial_state)) =
     reads initial_state + length (fst (main_loop echo_world True 8000 2 8000 [] initial_state))"
    by blast
  then have r: "reads (snd (main_loop echo_world True 8000 2 8000 [] initial_state)) = 2"
    by (simp add: main_loop_client initial_state_def)
  from c r e show ?thesis by blast
qed

text \<open>
  C1, at \<open>START_PORT = 8001\<close>, \<open>NUM_SPINUPS = 1\<close> in server mode. The loop starts at the
  literal 8000, not at \<open>START_PORT\<close>: two instances are started, on (8000, 8001, 8002) and
  (8001, 8002, 8003), so ports 8001 and 8002 are each given to two servers. The claim gives
  one instance on (8001, 8002, 8003).
\<close>

theorem ports_collide_off_base:
  "snd (main echo_world False 8001 1 initial_state) =
     \<lparr> reads = 0,
       effects = [QuicListen 8000, HttpListen 8001, WsListen 8002,
                  QuicListen 8001, HttpListen 8002, WsListen 8003],
       store = [] \<rparr>"
  by (simp add: main_def main_loop.simps runAsServer_def emit_def initial_state_def)

text \<open>
  C2, at \<open>START_PORT = 8001\<close>, \<open>NUM_SPINUPS = 1\<close> in client mode against echoing
  transports. The loop starts at the literal 8000, so two Race Runners are launched and the
  sample set holds two timing triples, not one.
\<close>

theorem sample_count_off_base:
  "Promise_all (fst (main_loop echo_world True 8001 1 8000 [] initial_state)) =
     Fulfilled [(3, 3, 3), (3, 3, 3)]"
  by (simp add: main_loop.simps runAsClient_def emit_def sleep_def Let_def echo_world_def
      initial_state_def settle_def Promise_all3_def quic_onData_def http_callback_def
      ws_onMessage_def resolve_def reject_def ws_onOpen_def ws_sent_def)

subsection \<open>Runs that start at port 8000\<close>

text \<open>
  The loop variable starts at 8000 whatever \<open>START_PORT\<close> is. The ports of the instances
  it starts are pairwise distinct when they are counted from the loop's own first value,
  and a client run against echoing transports with a clock that does not run backwards
  collects one triple of non-negative durations per launched instance, in launch order;
  their number is \<open>NUM_SPINUPS\<close> exactly when \<open>START_PORT = 8000\<close>.
\<close>

lemma main_server_effects:
  "main w False START_PORT NUM_SPINUPS s =
     (Serving,
      s\<lparr>effects := effects s @
         concat (map (\<lambda>q. [QuicListen q, HttpListen (q + NUM_SPINUPS),
                            WsListen (q + (NUM_SPINUPS * 2))])
                  [8000..START_PORT + NUM_SPINUPS - 1])\<rparr>)"
  by (simp add: main_def main_loop_server)

lemma ports_distinct_from_base:
  assumes "0 < NUM_SPINUPS"
  shows "distinct (concat (map (\<lambda>q. map (\<lambda>t. port_of t NUM_SPINUPS q) [QUIC, HTTP, WS])
                            [base..base + NUM_SPINUPS - 1]))"
proof (rule distinct_concat)
  show "distinct (map (\<lambda>q. map (\<lambda>t. port_of t NUM_SPINUPS q) [QUIC, HTTP, WS])
                   [base..base + NUM_SPINUPS - 1])"
    by (simp add: distinct_map inj_on_def)
next
  fix ys
  assume "ys \<in> set (map (\<lambda>q. map (\<lambda>t. port_of t NUM_SPINUPS q) [QUIC, HTTP, WS])
                       [base..base + NUM_SPINUPS - 1])"
  then show "distinct ys" using assms by auto
next
  fix ys zs
  assume "ys \<in> set (map (\<lambda>q. map (\<lambda>t. port_of t NUM_SPINUPS q) [QUIC, HTTP, WS])
                       [base..base + NUM_SPINUPS - 1])"
    and "zs \<in> set (map (\<lambda>q. map (\<lambda>t. port_of t NUM_SPINUPS q) [QUIC, HTTP, WS])
                       [base..base + NUM_SPINUPS - 1])"
    and "ys \<noteq> zs"
  then show "set ys \<inter> set zs = {}" by auto
qed

lemma client_sample_set:
  assumes echo: "\<And>t port data. \<exists>now. delivery w t port data = Some (data, now)
                                      \<and> getTime_start w t port \<le> now"
  shows "\<exists>ts. Promise_all (fst (main_loop w True START_PORT NUM_SPINUPS 8000 [] s)) = Fulfilled ts
            \<and> length ts = nat (START_PORT + NUM_SPINUPS - 8000)
            \<and> (\<forall>i < length ts.
                  ts ! i =
                   (snd (the (delivery w QUIC (8000 + int i) (readFileSync w (reads s + i))))
                      - getTime_start w QUIC (8000 + int i),
                    snd (the (delivery w HTTP (8000 + int i + NUM_SPINUPS)
                                (readFileSync w (reads s + i))))
                      - getTime_start w HTTP (8000 + int i + NUM_SPINUPS),
                    snd (the (delivery w WS (8000 + int i + NUM_SPINUPS * 2)
                                (readFileSync w (reads s + i))))
                      - getTime_start w WS (8000 + int i + NUM_SPINUPS * 2)))
            \<and> (\<forall>(a, b, c) \<in> set ts. 0 \<le> a \<and> 0 \<le> b \<and> 0 \<le> c)"
proof -
  define dur where "dur t port data = snd (the (delivery w t port data)) - getTime_start w t port"
    for t port data
  define F where "F q = (dur QUIC q (readFileSync w (reads s + nat (q - 8000))),
                         dur HTTP (q + NUM_SPINUPS) (readFileSync w (reads s + nat (q - 8000))),
                         dur WS (q + (NUM_SPINUPS * 2)) (readFileSync w (reads s + nat (q - 8000))))"
    for q
  have st: "settle quic_onData w t port data data = Fulfilled (dur t port data)"
       "settle http_callback w t port data data = Fulfilled (dur t port data)"
       "settle ws_onMessage w t port data data = Fulfilled (dur t port data)" for t port data
  proof -
    from echo [of t port data] obtain now where d: "delivery w t port data = Some (data, now)"
      by blast
    show "settle quic_onData w t port data data = Fulfilled (dur t port data)"
       "settle http_callback w t port data data = Fulfilled (dur t port data)"
       "settle ws_onMessage w t port data data = Fulfilled (dur t port data)"
      using settle_echo [OF d] d by (simp_all add: dur_def)
  qed
  have nonneg: "0 \<le> dur t port data" for t port data
    using echo [of t port data] by (auto simp: dur_def)
  have rp: "fst (main_loop w True START_PORT NUM_SPINUPS 8000 [] s) =
              map Fulfilled (map F [8000..START_PORT + NUM_SPINUPS - 1])"
    by (simp add: main_loop_client st Promise_all3_fulfilled F_def)
  have all: "Promise_all (fst (main_loop w True START_PORT NUM_SPINUPS 8000 [] s)) =
               Fulfilled (map F [8000..START_PORT + NUM_SPINUPS - 1])"
    unfolding rp by (rule Promise_all_fulfilled)
  have len: "length (map F [8000..START_PORT + NUM_SPINUPS - 1]) =
               nat (START_PORT + NUM_SPINUPS - 8000)"
    by simp
  have nth: "map F [8000..START_PORT + NUM_SPINUPS - 1] ! i = F (8000 + int i)"
    if "i < length (map F [8000..START_PORT + NUM_SPINUPS - 1])" for i
    using that by simp
  have pos: "\<forall>(a, b, c) \<in> set (map F [8000..START_PORT + NUM_SPINUPS - 1]).
               0 \<le> a \<and> 0 \<le> b \<and> 0 \<le> c"
    by (auto simp: F_def nonneg)
  show ?thesis
    apply (rule exI [where x = "map F [8000..START_PORT + NUM_SPINUPS - 1]"])
    apply (intro conjI all len pos allI impI)
    apply (simp only: nth)
    apply (simp add: F_def dur_def)
    done
qed


end
